theory Spec2Isabelle
  imports Complex_Main "HOL-Library.Multiset" "HOL-Library.Word"
begin

unbundle bit_operations_syntax

section \<open>JavaScript numbers\<close>

text \<open>
  A JavaScript number is an IEEE 754 binary64 value: a finite double, one of the two
  infinities, or \<open>NaN\<close>. A finite double is the real it denotes; the two zeros are not
  told apart (nothing in the engine divides by zero or prints a zero).
\<close>

datatype jsnum = Num real | PosInf | NegInf | NaN

text \<open>Rounding to the nearest integer, a tie to the even one.\<close>

definition round_half_even :: "real \<Rightarrow> int" where
  "round_half_even q =
     (let f = \<lfloor>q\<rfloor>; d = q - of_int f
      in if d < 1 / 2 then f
         else if 1 / 2 < d then f + 1
         else if even f then f else f + 1)"

text \<open>
  Rounding a real to binary64: the exponent of the binade of \<open>x\<close>, not below that of the
  subnormal numbers; the spacing of the doubles there, 52 binary places further down;
  the nearest multiple of the spacing, a tie to the even one; and the overflow to an
  infinity from \<open>2 ^ 1024\<close> on.
\<close>

definition binade :: "real \<Rightarrow> int" where
  "binade x = max \<lfloor>log 2 \<bar>x\<bar>\<rfloor> (- 1022)"

definition spacing :: "real \<Rightarrow> real" where
  "spacing x = 2 powr of_int (binade x - 52)"

definition round_double :: "real \<Rightarrow> jsnum" where
  "round_double x =
     (if x = 0 then Num 0
      else (let r = of_int (round_half_even (x / spacing x)) * spacing x
            in if 2 ^ 1024 \<le> \<bar>r\<bar> then (if 0 < x then PosInf else NegInf) else Num r))"

text \<open>The arithmetic operators and \<open>Math.sqrt\<close>, correctly rounded.\<close>

fun js_add :: "jsnum \<Rightarrow> jsnum \<Rightarrow> jsnum" where
  "js_add (Num a) (Num b) = round_double (a + b)"
| "js_add NaN y = NaN"
| "js_add x NaN = NaN"
| "js_add PosInf NegInf = NaN"
| "js_add NegInf PosInf = NaN"
| "js_add PosInf y = PosInf"
| "js_add NegInf y = NegInf"
| "js_add (Num a) y = y"

fun js_neg :: "jsnum \<Rightarrow> jsnum" where
  "js_neg (Num a) = Num (- a)"
| "js_neg PosInf = NegInf"
| "js_neg NegInf = PosInf"
| "js_neg NaN = NaN"

definition js_sub :: "jsnum \<Rightarrow> jsnum \<Rightarrow> jsnum" where
  "js_sub x y = js_add x (js_neg y)"

fun js_mul :: "jsnum \<Rightarrow> jsnum \<Rightarrow> jsnum" where
  "js_mul (Num a) (Num b) = round_double (a * b)"
| "js_mul NaN y = NaN"
| "js_mul x NaN = NaN"
| "js_mul (Num a) y = (if a = 0 then NaN else if (0 < a) = (y = PosInf) then PosInf else NegInf)"
| "js_mul x (Num b) = (if b = 0 then NaN else if (0 < b) = (x = PosInf) then PosInf else NegInf)"
| "js_mul x y = (if x = y then PosInf else NegInf)"

fun js_sqrt :: "jsnum \<Rightarrow> jsnum" where
  "js_sqrt (Num a) = (if a < 0 then NaN else round_double (sqrt a))"
| "js_sqrt PosInf = PosInf"
| "js_sqrt NegInf = NaN"
| "js_sqrt NaN = NaN"

text \<open>
  \<open>Math.pow(x, 2)\<close>, taken as the correctly rounded square (the language leaves the
  precision of \<open>Math.pow\<close> to the implementation).
\<close>

definition js_pow2 :: "jsnum \<Rightarrow> jsnum" where
  "js_pow2 x = js_mul x x"

text \<open>The comparison \<open><\<close>: false as soon as an operand is \<open>NaN\<close>.\<close>

fun js_lt :: "jsnum \<Rightarrow> jsnum \<Rightarrow> bool" where
  "js_lt (Num a) (Num b) \<longleftrightarrow> a < b"
| "js_lt NaN y \<longleftrightarrow> False"
| "js_lt x NaN \<longleftrightarrow> False"
| "js_lt x NegInf \<longleftrightarrow> False"
| "js_lt PosInf y \<longleftrightarrow> False"
| "js_lt NegInf y \<longleftrightarrow> True"
| "js_lt (Num a) PosInf \<longleftrightarrow> True"

text \<open>The comparison \<open><=\<close>, in which the claims about distances are stated.\<close>

fun js_le :: "jsnum \<Rightarrow> jsnum \<Rightarrow> bool" where
  "js_le (Num a) (Num b) \<longleftrightarrow> a \<le> b"
| "js_le NaN y \<longleftrightarrow> False"
| "js_le x NaN \<longleftrightarrow> False"
| "js_le NegInf y \<longleftrightarrow> True"
| "js_le x PosInf \<longleftrightarrow> True"
| "js_le x NegInf \<longleftrightarrow> False"
| "js_le PosInf y \<longleftrightarrow> False"

section \<open>Data model\<close>

text \<open>
  The engine of the route optimizer (the TSP module): points of the plane, route results,
  five solvers and the dispatcher. The coordinates of a point are finite doubles; every
  number that the engine computes from them is a \<open>jsnum\<close>. An index that the source
  initialises to \<open>-1\<close> is an option, \<open>None\<close> while it is \<open>-1\<close>.
\<close>

record Point =
  p_id :: string
  p_x :: real
  p_y :: real
  p_name :: string

record RouteResult =
  r_path :: "Point list"
  r_distance :: jsnum
  r_timeMs :: jsnum
  r_algorithm :: string

text \<open>
  \<open>performance.now()\<close> is an effect: the solvers read a clock. The clock is the sequence of
  its readings, finite doubles, and every solver takes the number of readings made so far
  and returns the number after it.
\<close>

type_synonym clock = "nat \<Rightarrow> real"

definition performance_now :: "clock \<Rightarrow> nat \<Rightarrow> real \<times> nat" where
  "performance_now clk t = (clk t, Suc t)"

text \<open>
  A solver returns \<open>None\<close> where the source returns no well-formed \<open>RouteResult\<close>:
  a loop that never ends, a thrown \<open>TypeError\<close>, or a path that holds \<open>undefined\<close>.
\<close>

type_synonym outcome = "(RouteResult \<times> nat) option"

section \<open>Geometry primitives\<close>

definition distance :: "Point \<Rightarrow> Point \<Rightarrow> jsnum" where
  "distance p1 p2 =
     js_sqrt (js_add (js_pow2 (js_sub (Num (p_x p1)) (Num (p_x p2))))
                     (js_pow2 (js_sub (Num (p_y p1)) (Num (p_y p2)))))"

definition calculateRouteDistance :: "Point list \<Rightarrow> jsnum" where
  "calculateRouteDistance path =
     fold (\<lambda>i total. js_add total (distance (path ! i) (path ! (i + 1))))
       [0..<length path - 1] (Num 0)"

section \<open>JavaScript sets of numbers\<close>

text \<open>A \<open>Set\<close> keeps its elements in insertion order, each once.\<close>

definition set_add :: "'a \<Rightarrow> 'a list \<Rightarrow> 'a list" where
  "set_add v s = (if v \<in> set s then s else s @ [v])"

definition set_from_array :: "'a list \<Rightarrow> 'a list" where
  "set_from_array vs = fold set_add vs []"

section \<open>32-bit integer operations\<close>

text \<open>
  The bitwise operators of JavaScript convert their operands to signed 32-bit integers;
  a shift uses the count modulo 32.
\<close>

definition to_int32 :: "int \<Rightarrow> 32 word" where
  "to_int32 k = word_of_int k"

definition js_shl1 :: "nat \<Rightarrow> int" where
  "js_shl1 i = sint (push_bit (i mod 32) (1 :: 32 word))"

definition js_and :: "int \<Rightarrow> int \<Rightarrow> int" where
  "js_and a b = sint (to_int32 a AND to_int32 b)"

definition js_or :: "int \<Rightarrow> int \<Rightarrow> int" where
  "js_or a b = sint (to_int32 a OR to_int32 b)"

definition js_xor :: "int \<Rightarrow> int \<Rightarrow> int" where
  "js_xor a b = sint (to_int32 a XOR to_int32 b)"

text \<open>
  \<open>__builtin_popcount\<close> is only called on the counter of the mask loop, which is never
  negative.
\<close>

fun builtin_popcount :: "nat \<Rightarrow> nat" where
  "builtin_popcount n = (if n = 0 then 0 else n mod 2 + builtin_popcount (n div 2))"

declare builtin_popcount.simps [simp del]

section \<open>Exact solver (Held-Karp)\<close>

type_synonym dp_table = "(int \<times> nat) \<rightharpoonup> jsnum"
type_synonym parent_table = "(int \<times> nat) \<rightharpoonup> nat option"

definition dp_init :: "Point list \<Rightarrow> nat \<Rightarrow> dp_table \<times> parent_table" where
  "dp_init points n =
     fold (\<lambda>i (dp, parent).
             let msk = js_or 1 (js_shl1 i)
             in (dp((msk, i) \<mapsto> distance (points ! 0) (points ! i)),
                 parent((msk, i) \<mapsto> Some 0)))
       [1..<n] (Map.empty, Map.empty)"

text \<open>The innermost loop: the running pair \<open>(minDist, bestPrev)\<close>.\<close>

definition best_prev_step ::
  "Point list \<Rightarrow> dp_table \<Rightarrow> int \<Rightarrow> nat \<Rightarrow> nat \<Rightarrow> jsnum \<times> nat option \<Rightarrow> jsnum \<times> nat option" where
  "best_prev_step points dp prevMask endv prev acc =
     (case acc of (minDist, bestPrev) \<Rightarrow>
        if js_and prevMask (js_shl1 prev) = 0 then acc
        else case dp (prevMask, prev) of
               None \<Rightarrow> acc
             | Some prevDist \<Rightarrow>
                 (let newDist = js_add prevDist (distance (points ! prev) (points ! endv))
                  in if js_lt newDist minDist then (newDist, Some prev) else acc))"

definition best_prev ::
  "Point list \<Rightarrow> nat \<Rightarrow> dp_table \<Rightarrow> int \<Rightarrow> nat \<Rightarrow> jsnum \<times> nat option" where
  "best_prev points n dp prevMask endv =
     fold (best_prev_step points dp prevMask endv) [1..<n] (PosInf, None)"

definition dp_end_step ::
  "Point list \<Rightarrow> nat \<Rightarrow> int \<Rightarrow> nat \<Rightarrow> dp_table \<times> parent_table \<Rightarrow> dp_table \<times> parent_table" where
  "dp_end_step points n msk endv st =
     (case st of (dp, parent) \<Rightarrow>
        if js_and msk (js_shl1 endv) = 0 then st
        else (case best_prev points n dp (js_xor msk (js_shl1 endv)) endv of
                (minDist, bestPrev) \<Rightarrow>
                  if js_lt minDist PosInf
                  then (dp((msk, endv) \<mapsto> minDist), parent((msk, endv) \<mapsto> bestPrev))
                  else st))"

definition dp_mask_step ::
  "Point list \<Rightarrow> nat \<Rightarrow> nat \<Rightarrow> nat \<Rightarrow> dp_table \<times> parent_table \<Rightarrow> dp_table \<times> parent_table" where
  "dp_mask_step points n subsetSize msk st =
     (if builtin_popcount msk \<noteq> subsetSize \<or> js_and (int msk) 1 = 0 then st
      else fold (dp_end_step points n (int msk)) [1..<n] st)"

definition dp_size_step ::
  "Point list \<Rightarrow> nat \<Rightarrow> nat \<Rightarrow> dp_table \<times> parent_table \<Rightarrow> dp_table \<times> parent_table" where
  "dp_size_step points n subsetSize st =
     fold (dp_mask_step points n subsetSize) [0..<nat (js_shl1 n)] st"

definition dp_build :: "Point list \<Rightarrow> nat \<Rightarrow> dp_table \<times> parent_table" where
  "dp_build points n = fold (dp_size_step points n) [3..<n + 1] (dp_init points n)"

definition best_last_step ::
  "Point list \<Rightarrow> dp_table \<Rightarrow> int \<Rightarrow> nat \<Rightarrow> jsnum \<times> nat option \<Rightarrow> jsnum \<times> nat option" where
  "best_last_step points dp fullMask i acc =
     (case acc of (minTour, lastNode) \<Rightarrow>
        case dp (fullMask, i) of
          None \<Rightarrow> acc
        | Some dst \<Rightarrow>
            (let tourDist = js_add dst (distance (points ! i) (points ! 0))
             in if js_lt tourDist minTour then (tourDist, Some i) else acc))"

definition best_last :: "Point list \<Rightarrow> nat \<Rightarrow> dp_table \<Rightarrow> int \<Rightarrow> jsnum \<times> nat option" where
  "best_last points n dp fullMask =
     fold (best_last_step points dp fullMask) [1..<n] (PosInf, None)"

text \<open>
  Path reconstruction: the loop \<open>while (cur !== 0)\<close>, which has no bound of its own. With
  \<open>cur\<close> at \<open>-1\<close> the source pushes \<open>points[-1]\<close>, which is \<open>undefined\<close>.
\<close>

partial_function (option) reconstruct ::
  "Point list \<Rightarrow> parent_table \<Rightarrow> int \<Rightarrow> nat option \<Rightarrow> Point list \<Rightarrow> Point list option" where
  "reconstruct points parent msk cur path =
     (case cur of
        None \<Rightarrow> None
      | Some c \<Rightarrow>
          if c = 0 then Some path
          else (case parent (msk, c) of
                  None \<Rightarrow> Some (path @ [points ! c])
                | Some prev \<Rightarrow>
                    reconstruct points parent (js_xor msk (js_shl1 c)) prev
                      (path @ [points ! c])))"

definition solveTSPExactDP :: "clock \<Rightarrow> nat \<Rightarrow> Point list \<Rightarrow> outcome" where
  "solveTSPExactDP clk t points =
     (let (startTime, t1) = performance_now clk t;
          n = length points
      in if n \<le> 1 then
           Some (\<lparr>r_path = points, r_distance = Num 0, r_timeMs = Num 0,
                   r_algorithm = ''Exact DP (Held-Karp)''\<rparr>, t1)
         else
           (let (dp, parent) = dp_build points n;
                fullMask = js_shl1 n - 1
            in case best_last points n dp fullMask of
                 (minTour, lastNode) \<Rightarrow>
                   (case reconstruct points parent fullMask lastNode [points ! 0] of
                      None \<Rightarrow> None
                    | Some path0 \<Rightarrow>
                        (let path = rev (path0 @ [points ! 0]);
                             (endTime, t2) = performance_now clk t1
                         in Some (\<lparr>r_path = path, r_distance = minTour,
                                    r_timeMs = js_sub (Num endTime) (Num startTime),
                                    r_algorithm = ''Exact DP (Held-Karp)''\<rparr>, t2)))))"

section \<open>Greedy solver (nearest neighbor)\<close>

definition nearest_step ::
  "Point list \<Rightarrow> nat list \<Rightarrow> nat \<Rightarrow> nat \<Rightarrow> jsnum \<times> nat option \<Rightarrow> jsnum \<times> nat option" where
  "nearest_step points visited current i acc =
     (case acc of (minDist, nearest) \<Rightarrow>
        if i \<in> set visited then acc
        else (let dst = distance (points ! current) (points ! i)
              in if js_lt dst minDist then (dst, Some i) else acc))"

definition find_nearest :: "Point list \<Rightarrow> nat list \<Rightarrow> nat \<Rightarrow> jsnum \<times> nat option" where
  "find_nearest points visited current =
     fold (nearest_step points visited current) [0..<length points] (PosInf, None)"

text \<open>
  The loop \<open>while (visited.size < n)\<close>. When no nearest point is found the source
  changes nothing and tests again, so it never ends.
\<close>

partial_function (option) nn_loop ::
  "Point list \<Rightarrow> nat list \<Rightarrow> Point list \<Rightarrow> nat \<Rightarrow> jsnum \<Rightarrow> (Point list \<times> nat \<times> jsnum) option" where
  "nn_loop points visited path current totalDistance =
     (if length visited < length points then
        (case find_nearest points visited current of
           (minDist, None) \<Rightarrow> nn_loop points visited path current totalDistance
         | (minDist, Some nearest) \<Rightarrow>
             nn_loop points (set_add nearest visited) (path @ [points ! nearest])
               nearest (js_add totalDistance minDist))
      else Some (path, current, totalDistance))"

definition solveTSPNearestNeighbor :: "clock \<Rightarrow> nat \<Rightarrow> Point list \<Rightarrow> outcome" where
  "solveTSPNearestNeighbor clk t points =
     (let (startTime, t1) = performance_now clk t;
          n = length points
      in if n \<le> 1 then
           Some (\<lparr>r_path = points, r_distance = Num 0, r_timeMs = Num 0,
                   r_algorithm = ''Nearest Neighbor''\<rparr>, t1)
         else
           (case nn_loop points (set_add 0 []) [points ! 0] 0 (Num 0) of
              None \<Rightarrow> None
            | Some (path, current, totalDistance) \<Rightarrow>
                (let (endTime, t2) = performance_now clk t1
                 in Some (\<lparr>r_path = path @ [points ! 0],
                            r_distance =
                              js_add totalDistance (distance (points ! current) (points ! 0)),
                            r_timeMs = js_sub (Num endTime) (Num startTime),
                            r_algorithm = ''Nearest Neighbor (Greedy)''\<rparr>, t2))))"

section \<open>Local search (2-opt)\<close>

text \<open>The swap loop that reverses the segment between \<open>left\<close> and \<open>right\<close>.\<close>

function reverse_segment :: "'a list \<Rightarrow> nat \<Rightarrow> nat \<Rightarrow> 'a list" where
  "reverse_segment path left right =
     (if left < right
      then reverse_segment (path[left := path ! right, right := path ! left])
             (Suc left) (right - 1)
      else path)"
  by pat_completeness auto
termination
  by (relation "measure (\<lambda>(path, left, right). right - left)") auto

declare reverse_segment.simps [simp del]

text \<open>The literal \<open>0.0001\<close> is the double next to one ten-thousandth.\<close>

definition two_opt_j_step :: "nat \<Rightarrow> nat \<Rightarrow> Point list \<times> bool \<Rightarrow> Point list \<times> bool" where
  "two_opt_j_step i j st =
     (case st of (path, improved) \<Rightarrow>
        (let a = path ! i;
             b = path ! (i + 1);
             c = path ! j;
             d = (if j + 1 < length path then path ! (j + 1) else path ! 0);
             currentDist = js_add (distance a b) (distance c d);
             newDist = js_add (distance a c) (distance b d)
         in if js_lt newDist (js_sub currentDist (round_double (1 / 10000)))
            then (reverse_segment path (i + 1) j, True)
            else st))"

definition two_opt_i_step :: "nat \<Rightarrow> Point list \<times> bool \<Rightarrow> Point list \<times> bool" where
  "two_opt_i_step i st = fold (two_opt_j_step i) [i + 2..<length (fst st)] st"

definition two_opt_pass :: "Point list \<Rightarrow> Point list \<times> bool" where
  "two_opt_pass path = fold two_opt_i_step [0..<length path - 1] (path, False)"

text \<open>
  The loop \<open>while (improved && iterations < maxIterations)\<close>; the first argument is
  the number of iterations that remain, \<open>maxIterations - iterations\<close>.
\<close>

fun two_opt_loop :: "nat \<Rightarrow> Point list \<Rightarrow> Point list" where
  "two_opt_loop 0 path = path"
| "two_opt_loop (Suc k) path =
     (case two_opt_pass path of
        (path', improved) \<Rightarrow> if improved then two_opt_loop k path' else path')"

definition maxIterations :: nat where
  "maxIterations = 1000"

definition solveTSP2Opt :: "clock \<Rightarrow> nat \<Rightarrow> Point list \<Rightarrow> outcome" where
  "solveTSP2Opt clk t points =
     (let (startTime, t1) = performance_now clk t
      in if length points \<le> 2 then
           Some (\<lparr>r_path = points, r_distance = calculateRouteDistance points,
                   r_timeMs = Num 0, r_algorithm = ''2-Opt''\<rparr>, t1)
         else
           (case solveTSPNearestNeighbor clk t1 points of
              None \<Rightarrow> None
            | Some (nnResult, t2) \<Rightarrow>
                (let path0 = two_opt_loop maxIterations (butlast (r_path nnResult));
                     path = path0 @ [path0 ! 0];
                     (endTime, t3) = performance_now clk t2
                 in Some (\<lparr>r_path = path, r_distance = calculateRouteDistance path,
                            r_timeMs = js_sub (Num endTime) (Num startTime),
                            r_algorithm = ''2-Opt Local Search''\<rparr>, t3))))"

section \<open>Approximate solver (Christofides)\<close>

subsection \<open>Prim's minimum spanning tree\<close>

text \<open>
  The arrays \<open>inMST\<close>, \<open>key\<close> and \<open>parent\<close>. All indices stay below \<open>n\<close>, the length of the
  three arrays.
\<close>

type_synonym prim_state = "bool list \<times> jsnum list \<times> nat option list"

definition prim_min_step ::
  "bool list \<Rightarrow> jsnum list \<Rightarrow> nat \<Rightarrow> jsnum \<times> nat option \<Rightarrow> jsnum \<times> nat option" where
  "prim_min_step inMST key i acc =
     (case acc of (minKey, u) \<Rightarrow>
        if \<not> inMST ! i \<and> js_lt (key ! i) minKey then (key ! i, Some i) else acc)"

definition prim_min :: "nat \<Rightarrow> bool list \<Rightarrow> jsnum list \<Rightarrow> jsnum \<times> nat option" where
  "prim_min n inMST key = fold (prim_min_step inMST key) [0..<n] (PosInf, None)"

definition prim_update_step ::
  "Point list \<Rightarrow> bool list \<Rightarrow> nat \<Rightarrow> nat \<Rightarrow>
   jsnum list \<times> nat option list \<Rightarrow> jsnum list \<times> nat option list" where
  "prim_update_step points inMST u v st =
     (case st of (key, parent) \<Rightarrow>
        if \<not> inMST ! v then
          (let dst = distance (points ! u) (points ! v)
           in if js_lt dst (key ! v)
              then (key[v := dst], parent[v := Some u])
              else st)
        else st)"

text \<open>The loop over \<open>count\<close>; the first argument is the number of rounds that remain.\<close>

fun prim_loop :: "nat \<Rightarrow> Point list \<Rightarrow> nat \<Rightarrow> prim_state \<Rightarrow> prim_state" where
  "prim_loop 0 points n st = st"
| "prim_loop (Suc c) points n st =
     (case st of (inMST, key, parent) \<Rightarrow>
        (case prim_min n inMST key of
           (minKey, None) \<Rightarrow> st
         | (minKey, Some u) \<Rightarrow>
             (let inMST' = inMST[u := True];
                  (key', parent') =
                     fold (prim_update_step points inMST' u) [0..<n] (key, parent)
              in prim_loop c points n (inMST', key', parent'))))"

definition primMST :: "Point list \<Rightarrow> (nat \<times> nat) list" where
  "primMST points =
     (let n = length points;
          (inMST, key, parent) =
             prim_loop n points n
               (replicate n False, (replicate n PosInf)[0 := Num 0], replicate n None)
      in concat (map (\<lambda>i. case parent ! i of None \<Rightarrow> [] | Some p \<Rightarrow> [(p, i)]) [1..<n]))"

subsection \<open>Odd-degree vertices\<close>

definition degree_step :: "nat \<times> nat \<Rightarrow> nat list \<Rightarrow> nat list" where
  "degree_step e degrees =
     (case e of (u, v) \<Rightarrow>
        (let d1 = degrees[u := degrees ! u + 1]
         in d1[v := d1 ! v + 1]))"

definition mst_degrees :: "nat \<Rightarrow> (nat \<times> nat) list \<Rightarrow> nat list" where
  "mst_degrees n mst = fold degree_step mst (replicate n 0)"

definition odd_vertices :: "nat \<Rightarrow> (nat \<times> nat) list \<Rightarrow> nat list" where
  "odd_vertices n mst =
     (let degrees = mst_degrees n mst
      in filter (\<lambda>i. degrees ! i mod 2 = 1) [0..<n])"

subsection \<open>Greedy matching\<close>

definition best_pair_step ::
  "Point list \<Rightarrow> nat list \<Rightarrow> nat \<Rightarrow> nat \<Rightarrow>
   jsnum \<times> (nat \<times> nat) option \<Rightarrow> jsnum \<times> (nat \<times> nat) option" where
  "best_pair_step points availArray i j acc =
     (case acc of (minDist, bestPair) \<Rightarrow>
        (let dst = distance (points ! (availArray ! i)) (points ! (availArray ! j))
         in if js_lt dst minDist then (dst, Some (availArray ! i, availArray ! j)) else acc))"

definition best_pair :: "Point list \<Rightarrow> nat list \<Rightarrow> jsnum \<times> (nat \<times> nat) option" where
  "best_pair points availArray =
     fold (\<lambda>i acc. fold (best_pair_step points availArray i) [i + 1..<length availArray] acc)
       [0..<length availArray] (PosInf, None)"

text \<open>
  The loop \<open>while (available.size > 1)\<close>. When no pair is found the source changes
  nothing and tests again.
\<close>

partial_function (option) matching_loop ::
  "Point list \<Rightarrow> nat list \<Rightarrow> (nat \<times> nat) list \<Rightarrow> (nat \<times> nat) list option" where
  "matching_loop points available matching =
     (if length available > 1 then
        (case best_pair points available of
           (minDist, None) \<Rightarrow> matching_loop points available matching
         | (minDist, Some (a, b)) \<Rightarrow>
             matching_loop points (removeAll b (removeAll a available)) (matching @ [(a, b)]))
      else Some matching)"

definition minimumWeightPerfectMatching ::
  "Point list \<Rightarrow> nat list \<Rightarrow> (nat \<times> nat) list option" where
  "minimumWeightPerfectMatching points vertices =
     matching_loop points (set_from_array vertices) []"

subsection \<open>Eulerian tour (Hierholzer)\<close>

type_synonym adjacency = "nat \<rightharpoonup> nat list"

definition adj_push :: "nat \<Rightarrow> nat \<Rightarrow> adjacency \<Rightarrow> adjacency" where
  "adj_push u v adj = adj(u \<mapsto> (case adj u of None \<Rightarrow> [] | Some l \<Rightarrow> l) @ [v])"

definition adj_add_edge :: "nat \<times> nat \<Rightarrow> adjacency \<Rightarrow> adjacency" where
  "adj_add_edge e adj =
     (case e of (u, v) \<Rightarrow>
        (let a1 = (if adj u = None then adj(u \<mapsto> []) else adj);
             a2 = (if a1 v = None then a1(v \<mapsto> []) else a1)
         in adj_push v u (adj_push u v a2)))"

text \<open>
  The stack and the tour are the arrays of the source: \<open>push\<close> appends, \<open>pop\<close> takes
  the last element. Reading the list of a vertex that is no key of the map throws.
\<close>

partial_function (option) euler_loop ::
  "adjacency \<Rightarrow> nat list \<Rightarrow> nat list \<Rightarrow> nat list option" where
  "euler_loop adj stack tour =
     (if stack = [] then Some tour
      else (case adj (last stack) of
              None \<Rightarrow> euler_loop adj (butlast stack) (tour @ [last stack])
            | Some neighbors \<Rightarrow>
                if neighbors = [] then euler_loop adj (butlast stack) (tour @ [last stack])
                else (case (adj(last stack \<mapsto> butlast neighbors)) (last neighbors) of
                        None \<Rightarrow> None
                      | Some otherNeighbors \<Rightarrow>
                          euler_loop
                            ((adj(last stack \<mapsto> butlast neighbors))
                               (last neighbors \<mapsto> remove1 (last stack) otherNeighbors))
                            (stack @ [last neighbors]) tour)))"

definition findEulerianTour :: "(nat \<times> nat) list \<Rightarrow> nat \<Rightarrow> nat list option" where
  "findEulerianTour edges n =
     map_option rev (euler_loop (fold adj_add_edge edges Map.empty) [0] [])"

subsection \<open>Shortcutting and the solver\<close>

definition shortcut_step ::
  "Point list \<Rightarrow> nat \<Rightarrow> nat list \<times> Point list \<Rightarrow> nat list \<times> Point list" where
  "shortcut_step points node st =
     (case st of (visited, path) \<Rightarrow>
        if node \<in> set visited then st
        else (set_add node visited, path @ [points ! node]))"

definition shortcut :: "Point list \<Rightarrow> nat list \<Rightarrow> Point list" where
  "shortcut points eulerianTour = snd (fold (shortcut_step points) eulerianTour ([], []))"

definition solveTSPChristofides :: "clock \<Rightarrow> nat \<Rightarrow> Point list \<Rightarrow> outcome" where
  "solveTSPChristofides clk t points =
     (let (startTime, t1) = performance_now clk t;
          n = length points
      in if n \<le> 2 then
           Some (\<lparr>r_path = points, r_distance = calculateRouteDistance points,
                   r_timeMs = Num 0, r_algorithm = ''Christofides''\<rparr>, t1)
         else
           (let mst = primMST points;
                oddVertices = odd_vertices n mst
            in case minimumWeightPerfectMatching points oddVertices of
                 None \<Rightarrow> None
               | Some matching \<Rightarrow>
                   (case findEulerianTour (mst @ matching) n of
                      None \<Rightarrow> None
                    | Some eulerianTour \<Rightarrow>
                        (let path = shortcut points eulerianTour @ [points ! (eulerianTour ! 0)];
                             (endTime, t2) = performance_now clk t1
                         in Some (\<lparr>r_path = path, r_distance = calculateRouteDistance path,
                                    r_timeMs = js_sub (Num endTime) (Num startTime),
                                    r_algorithm = ''Christofides (1.5-approx)''\<rparr>, t2)))))"

section \<open>Grid pathfinder (A*)\<close>

datatype AStarNode =
  AStarNode (n_point: Point) (n_g: jsnum) (n_h: jsnum) (n_f: jsnum)
    (n_parent: "AStarNode option")

text \<open>\<open>Math.round\<close> rounds to the nearest integer, a half upwards.\<close>

definition js_round :: "real \<Rightarrow> int" where
  "js_round v = \<lfloor>v + 1 / 2\<rfloor>"

definition directions :: "(int \<times> int) list" where
  "directions = [(-1, -1), (-1, 0), (-1, 1), (0, -1), (0, 1), (1, -1), (1, 0), (1, 1)]"

text \<open>The finite double that a number is; the other numbers are not read as one.\<close>

fun num_val :: "jsnum \<Rightarrow> real" where
  "num_val (Num a) = a"
| "num_val x = 0"

text \<open>
  The keys of the closed set and of the obstacle set are template strings of two numbers;
  they are only compared, so a key is the pair of the numbers. The identifier of a new
  grid point is such a string too: \<open>fmt\<close> is the conversion of a number to a string.
  A new coordinate that is not a finite double fails the test of the bounds, since the
  grid size is finite.
\<close>

definition neighbor_step ::
  "(real \<Rightarrow> string) \<Rightarrow> Point \<Rightarrow> (int \<times> int) set \<Rightarrow> real \<Rightarrow> AStarNode \<Rightarrow>
   int \<times> int \<Rightarrow> AStarNode list \<Rightarrow> AStarNode list" where
  "neighbor_step fmt goal obstacleSet gridSize current dir openSet =
     (case dir of (dx, dy) \<Rightarrow>
        (let newX = js_add (Num (p_x (n_point current))) (js_mul (Num (of_int dx)) (Num 2));
             newY = js_add (Num (p_y (n_point current))) (js_mul (Num (of_int dy)) (Num 2))
         in if js_lt newX (Num 0) \<or> js_lt (Num gridSize) newX \<or>
               js_lt newY (Num 0) \<or> js_lt (Num gridSize) newY then openSet
            else if (js_round (num_val newX), js_round (num_val newY)) \<in> obstacleSet
            then openSet
            else
              (let neighborPoint =
                     \<lparr>p_id = fmt (num_val newX) @ '','' @ fmt (num_val newY),
                      p_x = num_val newX, p_y = num_val newY, p_name = []\<rparr>;
                   gScore = js_add (n_g current) (distance (n_point current) neighborPoint)
               in openSet @
                    [AStarNode neighborPoint gScore (distance neighborPoint goal)
                       (js_add gScore (distance neighborPoint goal)) (Some current)])))"

definition expand ::
  "(real \<Rightarrow> string) \<Rightarrow> Point \<Rightarrow> (int \<times> int) set \<Rightarrow> real \<Rightarrow> AStarNode \<Rightarrow>
   AStarNode list \<Rightarrow> AStarNode list" where
  "expand fmt goal obstacleSet gridSize current openSet =
     fold (neighbor_step fmt goal obstacleSet gridSize current) directions openSet"

text \<open>
  \<open>openSet.sort((a, b) => a.f - b.f)\<close>: a stable sort; a node goes behind another one
  when the comparator is positive. The scores are sums of distances, never \<open>NaN\<close>.
\<close>

fun insert_node :: "AStarNode \<Rightarrow> AStarNode list \<Rightarrow> AStarNode list" where
  "insert_node a [] = [a]"
| "insert_node a (b # bs) =
     (if js_lt (Num 0) (js_sub (n_f a) (n_f b)) then b # insert_node a bs else a # b # bs)"

definition sort_open :: "AStarNode list \<Rightarrow> AStarNode list" where
  "sort_open openSet = foldr insert_node openSet []"

text \<open>
  The search loop. Its result is the node that reached the goal, or \<open>None\<close> when the
  open set is exhausted.
\<close>

partial_function (option) astar_loop ::
  "(real \<Rightarrow> string) \<Rightarrow> Point \<Rightarrow> (int \<times> int) set \<Rightarrow> real \<Rightarrow>
   AStarNode list \<Rightarrow> (real \<times> real) list \<Rightarrow> AStarNode option option" where
  "astar_loop fmt goal obstacleSet gridSize openSet closedSet =
     (case sort_open openSet of
        [] \<Rightarrow> Some None
      | current # rest \<Rightarrow>
          if (p_x (n_point current), p_y (n_point current)) \<in> set closedSet
          then astar_loop fmt goal obstacleSet gridSize rest closedSet
          else if js_lt (distance (n_point current) goal) (Num 1) then Some (Some current)
          else astar_loop fmt goal obstacleSet gridSize
                 (expand fmt goal obstacleSet gridSize current rest)
                 (set_add (p_x (n_point current), p_y (n_point current)) closedSet))"

fun node_path :: "AStarNode \<Rightarrow> Point list" where
  "node_path (AStarNode p g h f par) =
     (case par of None \<Rightarrow> [] | Some q \<Rightarrow> node_path q) @ [p]"

definition aStarPathfinding ::
  "(real \<Rightarrow> string) \<Rightarrow> clock \<Rightarrow> nat \<Rightarrow> Point \<Rightarrow> Point \<Rightarrow> Point list \<Rightarrow> real \<Rightarrow> outcome" where
  "aStarPathfinding fmt clk t start goal obstacles gridSize =
     (let (startTime, t1) = performance_now clk t;
          startNode = AStarNode start (Num 0) (distance start goal) (distance start goal) None;
          obstacleSet = set (map (\<lambda>ob. (js_round (p_x ob), js_round (p_y ob))) obstacles)
      in case astar_loop fmt goal obstacleSet gridSize [startNode] [] of
           None \<Rightarrow> None
         | Some (Some current) \<Rightarrow>
             (let (endTime, t2) = performance_now clk t1
              in Some (\<lparr>r_path = node_path current, r_distance = n_g current,
                         r_timeMs = js_sub (Num endTime) (Num startTime),
                         r_algorithm = ''A* Pathfinding''\<rparr>, t2))
         | Some None \<Rightarrow>
             (let (endTime, t2) = performance_now clk t1
              in Some (\<lparr>r_path = [start, goal], r_distance = distance start goal,
                         r_timeMs = js_sub (Num endTime) (Num startTime),
                         r_algorithm = ''A* Pathfinding (Direct)''\<rparr>, t2)))"

section \<open>Dispatcher\<close>

datatype AlgorithmType = ExactDP | NearestNeighbor | TwoOpt | Christofides | AStar

text \<open>One leg of the multi-point A* route: from point \<open>i\<close> to point \<open>i + 1\<close>.\<close>

definition astar_leg ::
  "(real \<Rightarrow> string) \<Rightarrow> clock \<Rightarrow> Point list \<Rightarrow> nat \<Rightarrow>
   (jsnum \<times> Point list \<times> nat) option \<Rightarrow> (jsnum \<times> Point list \<times> nat) option" where
  "astar_leg fmt clk points i st =
     (case st of
        None \<Rightarrow> None
      | Some (totalDist, fullPath, t) \<Rightarrow>
          (case aStarPathfinding fmt clk t (points ! i) (points ! (i + 1)) [] 100 of
             None \<Rightarrow> None
           | Some (result, t') \<Rightarrow>
               Some (js_add totalDist (r_distance result),
                     fullPath @ drop 1 (r_path result), t')))"

definition solveTSP ::
  "(real \<Rightarrow> string) \<Rightarrow> clock \<Rightarrow> nat \<Rightarrow> Point list \<Rightarrow> AlgorithmType \<Rightarrow> outcome" where
  "solveTSP fmt clk t points algorithm =
     (case algorithm of
        ExactDP \<Rightarrow>
          if length points \<le> 20 then solveTSPExactDP clk t points
          else (case solveTSPNearestNeighbor clk t points of
                  None \<Rightarrow> None
                | Some (r, t') \<Rightarrow>
                    Some (r\<lparr>r_algorithm := ''Nearest Neighbor (DP limit exceeded)''\<rparr>, t'))
      | NearestNeighbor \<Rightarrow> solveTSPNearestNeighbor clk t points
      | TwoOpt \<Rightarrow> solveTSP2Opt clk t points
      | Christofides \<Rightarrow> solveTSPChristofides clk t points
      | AStar \<Rightarrow>
          if length points < 2 then
            Some (\<lparr>r_path = points, r_distance = Num 0, r_timeMs = Num 0,
                    r_algorithm = ''A* Pathfinding''\<rparr>, t)
          else
            (let (startTime, t1) = performance_now clk t
             in case fold (astar_leg fmt clk points) [0..<length points - 1]
                       (Some (Num 0, [points ! 0], t1)) of
                  None \<Rightarrow> None
                | Some (totalDist, fullPath, t2) \<Rightarrow>
                    (case aStarPathfinding fmt clk t2 (last fullPath) (points ! 0) [] 100 of
                       None \<Rightarrow> None
                     | Some (returnPath, t3) \<Rightarrow>
                         (let (endTime, t4) = performance_now clk t3
                          in Some (\<lparr>r_path = fullPath @ drop 1 (r_path returnPath),
                                     r_distance = js_add totalDist (r_distance returnPath),
                                     r_timeMs = js_sub (Num endTime) (Num startTime),
                                     r_algorithm = ''A* Pathfinding (Multi-point)''\<rparr>, t4)))))"

definition run_step ::
  "(real \<Rightarrow> string) \<Rightarrow> clock \<Rightarrow> Point list \<Rightarrow> AlgorithmType \<Rightarrow>
   (RouteResult list \<times> nat) option \<Rightarrow> (RouteResult list \<times> nat) option" where
  "run_step fmt clk points algo st =
     (case st of
        None \<Rightarrow> None
      | Some (results, t) \<Rightarrow>
          (case solveTSP fmt clk t points algo of
             None \<Rightarrow> None
           | Some (r, t') \<Rightarrow> Some (results @ [r], t')))"

definition algorithms :: "AlgorithmType list" where
  "algorithms = [ExactDP, NearestNeighbor, TwoOpt, Christofides]"

definition compareAlgorithms ::
  "(real \<Rightarrow> string) \<Rightarrow> clock \<Rightarrow> nat \<Rightarrow> Point list \<Rightarrow> (RouteResult list \<times> nat) option" where
  "compareAlgorithms fmt clk t points =
     (let toRun = (if length points \<le> 20 then algorithms
                   else filter (\<lambda>a. a \<noteq> ExactDP) algorithms)
      in fold (run_step fmt clk points) toRun (Some ([], t)))"

section \<open>Relations used in the proofs\<close>

text \<open>A number that is a double: rounding leaves it as it is.\<close>

fun is_double :: "jsnum \<Rightarrow> bool" where
  "is_double (Num a) \<longleftrightarrow> round_double a = Num a"
| "is_double x \<longleftrightarrow> True"

text \<open>A length: a double that is not negative, or the positive infinity.\<close>

fun is_length :: "jsnum \<Rightarrow> bool" where
  "is_length (Num a) \<longleftrightarrow> 0 \<le> a \<and> round_double a = Num a"
| "is_length PosInf \<longleftrightarrow> True"
| "is_length x \<longleftrightarrow> False"

text \<open>All distances between the points are finite: no square overflows.\<close>

definition finite_distances :: "Point list \<Rightarrow> bool" where
  "finite_distances points \<longleftrightarrow>
     list_all (\<lambda>p. list_all (\<lambda>q. js_lt (distance p q) PosInf) points) points"

text \<open>
  The loops that look for a least number: a step takes the candidate when its cost is
  less than the running minimum.
\<close>

definition min_step ::
  "('a \<Rightarrow> jsnum option) \<Rightarrow> ('a \<Rightarrow> 'b) \<Rightarrow> 'a \<Rightarrow> jsnum \<times> 'b option \<Rightarrow> jsnum \<times> 'b option" where
  "min_step cost idx x acc =
     (case cost x of
        None \<Rightarrow> acc
      | Some d \<Rightarrow> if js_lt d (fst acc) then (d, Some (idx x)) else acc)"

text \<open>
  A visiting order of \<open>n\<close> points: every index below \<open>n\<close> once, index 0 first. The
  closed route of an order returns to the first input point.
\<close>

definition is_tour :: "nat \<Rightarrow> nat list \<Rightarrow> bool" where
  "is_tour n vs \<longleftrightarrow> distinct vs \<and> set vs = {..<n} \<and> hd vs = 0"

definition closed_route :: "Point list \<Rightarrow> nat list \<Rightarrow> Point list" where
  "closed_route points vs = map ((!) points) vs @ [points ! 0]"

text \<open>
  A solver returns a route whatever the clock: it reads the clock a first time, \<open>k\<close> times
  more, the last time for \<open>endTime\<close>, and reports the difference.
\<close>

definition returns_route ::
  "(clock \<Rightarrow> nat \<Rightarrow> outcome) \<Rightarrow> nat \<Rightarrow> string \<Rightarrow> Point list \<Rightarrow> jsnum \<Rightarrow> bool" where
  "returns_route solver k label path d \<longleftrightarrow>
     (\<forall>clk t. solver clk t
        = Some (\<lparr>r_path = path, r_distance = d,
                  r_timeMs = js_sub (Num (clk (t + k))) (Num (clk t)),
                  r_algorithm = label\<rparr>, Suc (t + k)))"

text \<open>The path and the distance of an outcome.\<close>

definition path_of :: "outcome \<Rightarrow> Point list option" where
  "path_of out = map_option (r_path \<circ> fst) out"

definition distance_of :: "outcome \<Rightarrow> jsnum option" where
  "distance_of out = map_option (r_distance \<circ> fst) out"

text \<open>
  A path closes a tour of the input: it starts and ends at the first input point, and
  without its last point it holds every input point as often as the input does.
\<close>

definition closes_tour :: "Point list \<Rightarrow> Point list \<Rightarrow> bool" where
  "closes_tour points path \<longleftrightarrow>
     path \<noteq> [] \<and> hd path = points ! 0 \<and> last path = points ! 0 \<and>
     mset (butlast path) = mset points"

section \<open>Sample inputs\<close>

text \<open>A clock that advances by one millisecond at every reading, and a number format.\<close>

definition tick :: clock where
  "tick k = real k"

definition fmt0 :: "real \<Rightarrow> string" where
  "fmt0 v = ''#''"

definition mk_point :: "string \<Rightarrow> real \<Rightarrow> real \<Rightarrow> Point" where
  "mk_point s a b = \<lparr>p_id = s, p_x = a, p_y = b, p_name = s\<rparr>"

definition pA :: Point where
  "pA = mk_point ''A'' 0 0"

definition pB :: Point where
  "pB = mk_point ''B'' 3 0"

definition line_points :: "nat \<Rightarrow> Point list" where
  "line_points n = map (\<lambda>k. mk_point ''P'' (real k) 0) [0..<n]"

definition pFar :: Point where
  "pFar = mk_point ''F'' 50 50"

definition wall :: "Point list" where
  "wall = [mk_point ''W1'' 2 0, mk_point ''W2'' 0 2, mk_point ''W3'' 2 2]"

text \<open>A point so far away that the square of its distance from \<open>pA\<close> overflows.\<close>

definition pHuge :: Point where
  "pHuge = mk_point ''H'' (2 ^ 512) 0"

text \<open>A path that visits the input points along a visiting order.\<close>

definition tour_path :: "Point list \<Rightarrow> Point list \<Rightarrow> bool" where
  "tour_path points path \<longleftrightarrow> (\<exists>vs. is_tour (length points) vs \<and> path = map ((!) points) vs)"

text \<open>
  The state of Prim's loop after the vertices of \<open>order\<close> have entered the tree, in this
  order: every later vertex hangs on an earlier one.
\<close>

definition prim_inv :: "nat \<Rightarrow> nat list \<Rightarrow> prim_state \<Rightarrow> bool" where
  "prim_inv n order st \<longleftrightarrow>
     (case st of (inMST, key, parent) \<Rightarrow>
        length inMST = n \<and> length key = n \<and> length parent = n \<and>
        distinct order \<and> set order = {i. i < n \<and> inMST ! i} \<and>
        (order = [] \<longrightarrow>
           key = (replicate n PosInf)[0 := Num 0] \<and> parent = replicate n None) \<and>
        (order \<noteq> [] \<longrightarrow>
           order ! 0 = 0 \<and> parent ! 0 = None \<and>
           (\<forall>v<n. v \<noteq> 0 \<longrightarrow> js_lt (key ! v) PosInf \<and> (\<exists>u \<in> set order. parent ! v = Some u)) \<and>
           (\<forall>j<length order. 0 < j \<longrightarrow>
               (\<exists>i<j. parent ! (order ! j) = Some (order ! i)))))"

text \<open>
  An edge list spans the vertices below \<open>n\<close> along \<open>order\<close>: the order names every vertex
  once, starts at 0, and every later vertex has an edge from an earlier one.
\<close>

definition spanning_order :: "nat \<Rightarrow> (nat \<times> nat) list \<Rightarrow> nat list \<Rightarrow> bool" where
  "spanning_order n edges order \<longleftrightarrow>
     distinct order \<and> set order = {..<n} \<and> order ! 0 = 0 \<and>
     (\<forall>j<n. 0 < j \<longrightarrow> (\<exists>i<j. (order ! i, order ! j) \<in> set edges))"

text \<open>What Prim's loop keeps on every input: the parent of a vertex is a vertex.\<close>

definition prim_bounds :: "nat \<Rightarrow> prim_state \<Rightarrow> bool" where
  "prim_bounds n st \<longleftrightarrow>
     (case st of (inMST, key, parent) \<Rightarrow>
        length key = n \<and> length parent = n \<and>
        list_all (\<lambda>p. case p of None \<Rightarrow> True | Some u \<Rightarrow> u < n) parent)"

section \<open>Basic facts\<close>

section \<open>Rounding to the nearest integer\<close>

lemma rhe_bounds: "\<lfloor>q\<rfloor> \<le> round_half_even q" "round_half_even q \<le> \<lfloor>q\<rfloor> + 1"
  by (simp_all add: round_half_even_def Let_def)

lemma rhe_int [simp]: "round_half_even (of_int n) = n"
  by (simp add: round_half_even_def)

lemma rhe_mono:
  assumes "q \<le> q'"
  shows "round_half_even q \<le> round_half_even q'"
proof (cases "\<lfloor>q\<rfloor> = \<lfloor>q'\<rfloor>")
  case True
  with assms show ?thesis
    by (simp add: round_half_even_def Let_def)
next
  case False
  moreover have "\<lfloor>q\<rfloor> \<le> \<lfloor>q'\<rfloor>" using assms by (rule floor_mono)
  ultimately have "\<lfloor>q\<rfloor> + 1 \<le> \<lfloor>q'\<rfloor>" by simp
  with rhe_bounds(2) [of q] rhe_bounds(1) [of q'] show ?thesis by linarith
qed

lemma rhe_ge: "of_int k \<le> q \<Longrightarrow> k \<le> round_half_even q"
  using rhe_mono [of "of_int k" q] by simp

lemma rhe_le: "q \<le> of_int k \<Longrightarrow> round_half_even q \<le> k"
  using rhe_mono [of q "of_int k"] by simp

lemma rhe_neg: "round_half_even (- q) = - round_half_even q"
proof (cases "q = of_int \<lfloor>q\<rfloor>")
  case True
  then obtain n where "q = of_int n" ..
  then have "- q = of_int (- n)" by simp
  then show ?thesis using \<open>q = of_int n\<close> by (simp only: rhe_int)
next
  case False
  then have fl: "\<lfloor>- q\<rfloor> = - \<lfloor>q\<rfloor> - 1"
    by (simp add: floor_minus ceiling_altdef)
  have d: "- q - of_int (- \<lfloor>q\<rfloor> - 1) = 1 - (q - of_int \<lfloor>q\<rfloor>)" by simp
  show ?thesis
    unfolding round_half_even_def Let_def fl d by (simp add: field_simps)
qed

section \<open>Rounding to a double\<close>

lemma binade_minus [simp]: "binade (- x) = binade x"
  by (simp add: binade_def)

lemma spacing_minus [simp]: "spacing (- x) = spacing x"
  by (simp add: spacing_def)

lemma spacing_pos [simp]: "0 < spacing x"
  by (simp add: spacing_def)

lemma spacing_nonneg [simp]: "0 \<le> spacing x"
  by (simp add: spacing_def)

lemma spacing_nonzero [simp]: "spacing x \<noteq> 0"
  by (simp add: spacing_def)

lemma round_double_minus: "round_double (- x) = js_neg (round_double x)"
  by (simp add: round_double_def Let_def rhe_neg)

lemma binade_upper:
  assumes "x \<noteq> 0"
  shows "\<bar>x\<bar> < 2 powr of_int (binade x + 1)"
proof -
  have "\<bar>x\<bar> < 2 powr (of_int \<lfloor>log 2 \<bar>x\<bar>\<rfloor> + 1)"
    using floor_log_eq_powr_iff [of "\<bar>x\<bar>" 2 "\<lfloor>log 2 \<bar>x\<bar>\<rfloor>"] assms by simp
  also have "\<dots> \<le> 2 powr of_int (binade x + 1)"
    by (simp add: binade_def)
  finally show ?thesis .
qed

lemma binade_lower:
  assumes "x \<noteq> 0" "- 1022 \<le> \<lfloor>log 2 \<bar>x\<bar>\<rfloor>"
  shows "2 powr of_int (binade x) \<le> \<bar>x\<bar>"
proof -
  have "binade x = \<lfloor>log 2 \<bar>x\<bar>\<rfloor>" using assms(2) by (simp add: binade_def)
  then show ?thesis
    using floor_log_eq_powr_iff [of "\<bar>x\<bar>" 2 "\<lfloor>log 2 \<bar>x\<bar>\<rfloor>"] assms(1) by simp
qed

lemma powr_split: "2 powr of_int (e + 1) = spacing x * 2 ^ 53" if "e = binade x"
proof -
  have "of_int (e + 1) = of_int (binade x - 52) + real 53" using that by simp
  then have "2 powr of_int (e + 1) = 2 powr of_int (binade x - 52) * 2 powr real 53"
    by (simp only: powr_add)
  then show ?thesis by (simp add: spacing_def powr_realpow)
qed

lemma powr_split': "2 powr of_int e = spacing x * 2 ^ 52" if "e = binade x"
proof -
  have "of_int e = of_int (binade x - 52) + real 52" using that by simp
  then have "2 powr of_int e = 2 powr of_int (binade x - 52) * 2 powr real 52"
    by (simp only: powr_add)
  then show ?thesis by (simp add: spacing_def powr_realpow)
qed

lemma quotient_upper:
  assumes "0 < x"
  shows "x / spacing x < 2 ^ 53"
proof -
  have "x < spacing x * 2 ^ 53"
    using binade_upper [of x] assms powr_split [of "binade x" x] by simp
  then show ?thesis by (simp add: field_simps)
qed

lemma quotient_lower:
  assumes "0 < x" "- 1022 \<le> \<lfloor>log 2 \<bar>x\<bar>\<rfloor>"
  shows "2 ^ 52 \<le> x / spacing x"
proof -
  have "spacing x * 2 ^ 52 \<le> x"
    using binade_lower [of x] assms powr_split' [of "binade x" x] by simp
  then show ?thesis by (simp add: field_simps)
qed

text \<open>The rounded value of a positive real, before the test for overflow.\<close>

lemma round_double_pos:
  assumes "0 < x"
  shows "round_double x =
     (if 2 ^ 1024 \<le> of_int (round_half_even (x / spacing x)) * spacing x then PosInf
      else Num (of_int (round_half_even (x / spacing x)) * spacing x))"
    and "0 \<le> round_half_even (x / spacing x)"
    and "round_half_even (x / spacing x) \<le> 2 ^ 53"
proof -
  have "0 < spacing x" by simp
  then have "0 \<le> x / spacing x" using assms by (simp add: less_imp_le)
  then show n0: "0 \<le> round_half_even (x / spacing x)"
    using rhe_ge [of 0 "x / spacing x"] by simp
  have "x / spacing x \<le> of_int (2 ^ 53)"
    using quotient_upper [OF assms] by simp
  then show "round_half_even (x / spacing x) \<le> 2 ^ 53"
    by (rule rhe_le)
  have "0 \<le> real_of_int (round_half_even (x / spacing x)) * spacing x"
    using n0 by (intro mult_nonneg_nonneg) simp_all
  then show "round_double x =
     (if 2 ^ 1024 \<le> of_int (round_half_even (x / spacing x)) * spacing x then PosInf
      else Num (of_int (round_half_even (x / spacing x)) * spacing x))"
    using assms by (simp add: round_double_def Let_def abs_of_nonneg)
qed

lemma round_double_mono_pos:
  assumes "0 < x" "x \<le> y"
  shows "js_le (round_double x) (round_double y)"
proof -
  have y: "0 < y" using assms by simp
  let ?nx = "round_half_even (x / spacing x)" and ?ny = "round_half_even (y / spacing y)"
  have le: "of_int ?nx * spacing x \<le> of_int ?ny * spacing y"
  proof (cases "binade x = binade y")
    case True
    then have s: "spacing x = spacing y" by (simp add: spacing_def)
    have "x / spacing y \<le> y / spacing y"
      using assms(2) by (intro divide_right_mono) simp_all
    then have "?nx \<le> ?ny" unfolding s by (rule rhe_mono)
    then show ?thesis unfolding s by (simp add: mult_right_mono)
  next
    case False
    have "log 2 \<bar>x\<bar> \<le> log 2 \<bar>y\<bar>" using assms by simp
    then have "\<lfloor>log 2 \<bar>x\<bar>\<rfloor> \<le> \<lfloor>log 2 \<bar>y\<bar>\<rfloor>" by (rule floor_mono)
    then have "binade x \<le> binade y" by (auto simp: binade_def)
    with False have lt: "binade x + 1 \<le> binade y" by simp
    then have "- 1022 < binade y" by (simp add: binade_def)
    then have ny: "- 1022 \<le> \<lfloor>log 2 \<bar>y\<bar>\<rfloor>"
      unfolding binade_def by linarith
    have "of_int (2 ^ 52) \<le> y / spacing y"
      using quotient_lower [OF y ny] by simp
    then have "2 ^ 52 \<le> ?ny" by (rule rhe_ge)
    then have "(2 ^ 52 :: real) \<le> of_int ?ny"
      by (metis of_int_le_iff of_int_numeral of_int_power)
    then have "spacing y * 2 ^ 52 \<le> of_int ?ny * spacing y"
      by (simp add: mult.commute mult_left_mono)
    then have low: "2 powr of_int (binade y) \<le> of_int ?ny * spacing y"
      using powr_split' [of "binade y" y] by simp
    have "?nx \<le> 2 ^ 53" by (rule round_double_pos(3) [OF assms(1)])
    then have "of_int ?nx \<le> (2 ^ 53 :: real)"
      by (metis of_int_le_iff of_int_numeral of_int_power)
    then have "of_int ?nx * spacing x \<le> spacing x * 2 ^ 53"
      by (simp add: mult.commute mult_left_mono)
    then have "of_int ?nx * spacing x \<le> 2 powr of_int (binade x + 1)"
      using powr_split [of "binade x" x] by simp
    also have "\<dots> \<le> 2 powr of_int (binade y)"
      using lt by simp
    finally show ?thesis using low by simp
  qed
  show ?thesis
    unfolding round_double_pos(1) [OF assms(1)] round_double_pos(1) [OF y]
    using le by auto
qed

lemma round_double_zero [simp]: "round_double 0 = Num 0"
  by (simp add: round_double_def)

lemma round_double_nonneg:
  assumes "0 \<le> x"
  shows "js_le (Num 0) (round_double x)"
proof (cases "x = 0")
  case True
  then show ?thesis by simp
next
  case False
  then have x: "0 < x" using assms by simp
  have "0 \<le> real_of_int (round_half_even (x / spacing x)) * spacing x"
    using round_double_pos(2) [OF x] by (intro mult_nonneg_nonneg) simp_all
  then show ?thesis
    unfolding round_double_pos(1) [OF x] by simp
qed

lemma js_le_neg: "js_le (js_neg a) (js_neg b) \<longleftrightarrow> js_le b a"
  by (cases a; cases b) simp_all

lemma js_le_trans: "js_le a b \<Longrightarrow> js_le b c \<Longrightarrow> js_le a c"
  by (cases a; cases b; cases c) simp_all

lemma round_double_mono:
  assumes "x \<le> y"
  shows "js_le (round_double x) (round_double y)"
proof -
  consider "0 < x" | "x \<le> 0" "0 \<le> y" | "y < 0" using assms by linarith
  then show ?thesis
  proof cases
    case 1
    then show ?thesis using assms by (rule round_double_mono_pos)
  next
    case 2
    have "js_le (Num 0) (round_double (- x))"
      using 2(1) by (intro round_double_nonneg) simp
    then have "js_le (js_neg (round_double (- x))) (js_neg (Num 0))"
      by (simp only: js_le_neg)
    then have "js_le (round_double x) (Num 0)"
      using round_double_minus [of "- x"] by simp
    moreover have "js_le (Num 0) (round_double y)"
      using 2(2) by (rule round_double_nonneg)
    ultimately show ?thesis by (rule js_le_trans)
  next
    case 3
    have "js_le (round_double (- y)) (round_double (- x))"
      using 3 assms by (intro round_double_mono_pos) simp_all
    then show ?thesis
      by (simp add: round_double_minus js_le_neg)
  qed
qed

text \<open>A real with at most 53 significant bits in the range of the doubles is a double.\<close>

lemma round_double_exact:
  assumes x: "x = of_int m * 2 powr of_int k"
    and m: "\<bar>m\<bar> < 2 ^ 53" and k: "- 1074 \<le> k" and r: "\<bar>x\<bar> < 2 ^ 1024"
  shows "round_double x = Num x"
proof (cases "x = 0")
  case True
  then show ?thesis by simp
next
  case False
  have "real_of_int \<bar>m\<bar> < 2 ^ 53"
    using m by (metis of_int_less_iff of_int_numeral of_int_power)
  then have "\<bar>x\<bar> < 2 ^ 53 * 2 powr of_int k"
    unfolding x by (simp add: abs_mult)
  also have "\<dots> = 2 powr (of_int k + real 53)"
    by (simp only: powr_add powr_realpow) simp
  finally have up: "\<bar>x\<bar> < 2 powr of_int (k + 53)" by (simp add: add.commute)
  have lo: "2 powr of_int \<lfloor>log 2 \<bar>x\<bar>\<rfloor> \<le> \<bar>x\<bar>"
    using floor_log_eq_powr_iff [of "\<bar>x\<bar>" 2 "\<lfloor>log 2 \<bar>x\<bar>\<rfloor>"] False by simp
  from lo up have "(2 :: real) powr real_of_int \<lfloor>log 2 \<bar>x\<bar>\<rfloor> < 2 powr real_of_int (k + 53)"
    by (rule le_less_trans)
  then have "real_of_int \<lfloor>log 2 \<bar>x\<bar>\<rfloor> < real_of_int (k + 53)" by simp
  then have "\<lfloor>log 2 \<bar>x\<bar>\<rfloor> < k + 53" by (simp only: of_int_less_iff)
  then have e: "binade x - 52 \<le> k" using k by (simp add: binade_def)
  define j where "j = nat (k - (binade x - 52))"
  have kj: "of_int k = of_int (binade x - 52) + real j"
    using e by (simp add: j_def)
  have pk: "2 powr of_int k = spacing x * 2 ^ j"
    unfolding kj powr_add spacing_def by (simp add: powr_realpow)
  have xx: "x = of_int m * (spacing x * 2 ^ j)"
    using x unfolding pk .
  then have "x / spacing x = of_int m * (spacing x * 2 ^ j) / spacing x"
    by (rule arg_cong [where f = "\<lambda>v. v / spacing x"])
  then have q: "x / spacing x = of_int (m * 2 ^ j)"
    by simp
  have "real_of_int (m * 2 ^ j) * spacing x = of_int m * (spacing x * 2 ^ j)"
    by simp
  also have "\<dots> = x" by (rule xx [symmetric])
  finally have "of_int (round_half_even (x / spacing x)) * spacing x = x"
    unfolding q rhe_int .
  then show ?thesis
    using False r by (simp add: round_double_def Let_def)
qed

lemma round_double_int:
  assumes "\<bar>m\<bar> < 2 ^ 53"
  shows "round_double (of_int m) = Num (of_int m)"
proof (rule round_double_exact [where m = m and k = 0])
  show "\<bar>real_of_int m\<bar> < 2 ^ 1024"
  proof -
    have "real_of_int \<bar>m\<bar> < 2 ^ 53"
      using assms by (metis of_int_less_iff of_int_numeral of_int_power)
    also have "\<dots> < (2 :: real) ^ 1024" by (rule power_strict_increasing) simp_all
    finally show ?thesis by simp
  qed
qed (use assms in simp_all)

lemma round_double_idem:
  assumes "round_double x = Num r"
  shows "round_double r = Num r"
proof (cases "x = 0")
  case True
  with assms show ?thesis by auto
next
  case False
  define n where "n = round_half_even (x / spacing x)"
  have r: "r = of_int n * spacing x" and fin: "\<bar>r\<bar> < 2 ^ 1024"
    using assms False by (auto simp: round_double_def Let_def n_def split: if_splits)
  have n: "\<bar>n\<bar> \<le> 2 ^ 53"
  proof (cases "0 < x")
    case True
    from round_double_pos(2,3) [OF this] show ?thesis by (simp add: n_def)
  next
    case False
    with \<open>x \<noteq> 0\<close> have "0 < - x" by simp
    from round_double_pos(2,3) [OF this] show ?thesis
      by (simp add: n_def rhe_neg)
  qed
  show ?thesis
  proof (cases "\<bar>n\<bar> = 2 ^ 53")
    case False
    with n have n': "\<bar>n\<bar> < 2 ^ 53" by simp
    show ?thesis
    proof (rule round_double_exact [where m = n and k = "binade x - 52"])
      show "r = of_int n * 2 powr of_int (binade x - 52)" by (simp add: r spacing_def)
      show "- 1074 \<le> binade x - 52" by (simp add: binade_def)
    qed (fact n' fin)+
  next
    case True
    then have "n = 2 ^ 53 \<or> n = - (2 ^ 53)" by linarith
    then have "real_of_int n = of_int (sgn n * 2 ^ 52) * 2"
      by auto
    moreover have "2 powr of_int (binade x - 51) = 2 * spacing x"
    proof -
      have "of_int (binade x - 51) = of_int (binade x - 52) + (1 :: real)" by simp
      then show ?thesis unfolding spacing_def by (simp only: powr_add) simp
    qed
    ultimately have r': "r = of_int (sgn n * 2 ^ 52) * 2 powr of_int (binade x - 51)"
      by (simp add: r)
    have s: "\<bar>sgn n * 2 ^ 52\<bar> < (2 :: int) ^ 53"
      using \<open>n = 2 ^ 53 \<or> n = - (2 ^ 53)\<close> by auto
    have "- 1074 \<le> binade x - 51" by (simp add: binade_def)
    with r' s show ?thesis using fin by (rule round_double_exact)
  qed
qed

lemma round_double_overflow:
  assumes "2 ^ 1024 \<le> x"
  shows "round_double x = PosInf"
proof -
  have x: "0 < x" using assms by (smt (verit) zero_less_power)
  have "(2 :: real) powr real 1024 = 2 ^ 1024" by (rule powr_realpow) simp
  then have "(2 :: real) powr real 1024 \<le> \<bar>x\<bar>" using assms x by simp
  then have "real 1024 \<le> log 2 \<bar>x\<bar>"
    using x by (simp add: le_log_iff)
  then have fl: "1024 \<le> \<lfloor>log 2 \<bar>x\<bar>\<rfloor>" by (simp add: le_floor_iff)
  then have b: "binade x = \<lfloor>log 2 \<bar>x\<bar>\<rfloor>" by (simp add: binade_def)
  have "of_int (2 ^ 52) \<le> x / spacing x"
    using quotient_lower [OF x] fl by simp
  then have "2 ^ 52 \<le> round_half_even (x / spacing x)" by (rule rhe_ge)
  then have "(2 ^ 52 :: real) \<le> of_int (round_half_even (x / spacing x))"
    by (metis of_int_le_iff of_int_numeral of_int_power)
  then have "spacing x * 2 ^ 52 \<le> of_int (round_half_even (x / spacing x)) * spacing x"
    by (simp add: mult.commute mult_left_mono)
  then have "2 powr of_int (binade x) \<le> of_int (round_half_even (x / spacing x)) * spacing x"
    using powr_split' [of "binade x" x] by simp
  moreover have "2 powr real 1024 \<le> 2 powr of_int (binade x)"
    by (rule powr_mono) (use fl b in simp_all)
  moreover have "(2 :: real) powr real 1024 = 2 ^ 1024" by (rule powr_realpow) simp
  ultimately have "2 ^ 1024 \<le> of_int (round_half_even (x / spacing x)) * spacing x"
    by linarith
  then show ?thesis
    unfolding round_double_pos(1) [OF x] by simp
qed

lemma round_double_pow2:
  assumes "k \<le> 1023"
  shows "round_double (2 ^ k) = Num (2 ^ k)"
proof (rule round_double_exact [where m = 1 and k = "int k"])
  show "(2 :: real) ^ k = of_int 1 * 2 powr of_int (int k)"
    by (simp add: powr_realpow)
  have "(2 :: real) ^ k < 2 ^ 1024"
    using assms by (intro power_strict_increasing) simp_all
  then show "\<bar>(2 :: real) ^ k\<bar> < 2 ^ 1024" by simp
  show "\<bar>1 :: int\<bar> < 2 ^ 53" by simp
  show "- 1074 \<le> int k" by simp
qed

lemma round_double_bounded:
  assumes "0 \<le> x" "x \<le> 2 ^ k" "k \<le> 1023"
  shows "\<exists>r. round_double x = Num r \<and> 0 \<le> r \<and> r \<le> 2 ^ k"
proof -
  have "js_le (Num 0) (round_double x)" using assms(1) by (rule round_double_nonneg)
  moreover have "js_le (round_double x) (Num (2 ^ k))"
    using round_double_mono [OF assms(2)] round_double_pow2 [OF assms(3)] by simp
  ultimately show ?thesis by (cases "round_double x") simp_all
qed

section \<open>Arithmetic of lengths\<close>

lemma round_double_finite: "round_double x = Num r \<Longrightarrow> \<bar>r\<bar> < 2 ^ 1024"
  by (auto simp: round_double_def Let_def split: if_splits)

lemma round_double_length: "0 \<le> x \<Longrightarrow> is_length (round_double x)"
  using round_double_nonneg [of x] round_double_idem [of x]
  by (cases "round_double x") simp_all

lemma is_length_double: "is_length x \<Longrightarrow> is_double x"
  by (cases x) simp_all

lemma js_add_length: "is_length x \<Longrightarrow> is_length y \<Longrightarrow> is_length (js_add x y)"
  by (cases x; cases y) (simp_all add: round_double_length)

lemma js_add_zero: "is_double x \<Longrightarrow> js_add (Num 0) x = x"
  by (cases x) simp_all

lemma js_pow2_length: "x \<noteq> NaN \<Longrightarrow> is_length (js_pow2 x)"
  by (cases x) (simp_all add: js_pow2_def round_double_length)

lemma round_double_no_nan [simp]: "round_double x \<noteq> NaN"
  by (simp add: round_double_def Let_def)

lemma js_sqrt_length: "is_length x \<Longrightarrow> is_length (js_sqrt x)"
  by (cases x) (simp_all add: round_double_length)

lemma distance_length: "is_length (distance p q)"
  unfolding distance_def
  by (intro js_sqrt_length js_add_length js_pow2_length) (simp_all add: js_sub_def)

lemma distance_double: "is_double (distance p q)"
  by (rule is_length_double) (rule distance_length)

lemma is_length_cases:
  assumes "is_length x"
  obtains "x = PosInf" | r where "x = Num r" "0 \<le> r" "round_double r = Num r"
  using assms by (cases x) simp_all

lemma js_lt_inf: "is_length x \<Longrightarrow> js_lt x PosInf \<longleftrightarrow> x \<noteq> PosInf"
  by (cases x) simp_all

lemma js_le_refl: "x \<noteq> NaN \<Longrightarrow> js_le x x"
  by (cases x) simp_all

lemma js_le_zero: "is_length x \<Longrightarrow> js_le (Num 0) x"
  by (cases x) simp_all

lemma js_not_lt: "x \<noteq> NaN \<Longrightarrow> y \<noteq> NaN \<Longrightarrow> \<not> js_lt x y \<longleftrightarrow> js_le y x"
  by (cases x; cases y) auto

lemma js_lt_le: "js_lt x y \<Longrightarrow> js_le x y"
  by (cases x; cases y) auto

lemma is_length_no_nan: "is_length x \<Longrightarrow> x \<noteq> NaN"
  by (cases x) simp_all

lemma js_add_mono:
  assumes "js_le x y" "is_length x" "is_length y" "is_length d"
  shows "js_le (js_add x d) (js_add y d)"
proof (cases d)
  case (Num c)
  show ?thesis
  proof (cases x)
    case x: (Num a)
    show ?thesis
    proof (cases y)
      case (Num b)
      with x assms(1) have "a + c \<le> b + c" by simp
      then show ?thesis
        unfolding x Num \<open>d = Num c\<close> js_add.simps by (rule round_double_mono)
    next
      case PosInf
      then show ?thesis
        using x \<open>d = Num c\<close> by (cases "round_double (a + c)") simp_all
    qed (use assms in simp_all)
  next
    case PosInf
    with assms(1,3) have "y = PosInf" by (cases y) simp_all
    with PosInf Num show ?thesis by simp
  qed (use assms in simp_all)
next
  case PosInf
  with assms show ?thesis by (cases x; cases y) simp_all
qed (use assms in simp_all)

text \<open>The square root of a double is at most \<open>2 ^ 512\<close>.\<close>

lemma js_sqrt_bound:
  assumes "is_length x" "js_sqrt x = Num r"
  shows "r \<le> 2 ^ 512"
proof (cases x)
  case (Num a)
  with assms have a: "0 \<le> a" "round_double a = Num a" and r: "round_double (sqrt a) = Num r"
    by simp_all
  define P :: real where "P = 2 ^ 512"
  have P: "0 \<le> P" by (simp add: P_def)
  have "(2 :: real) ^ (512 * 2) = (2 ^ 512)\<^sup>2" by (rule power_mult)
  then have P2: "P\<^sup>2 = 2 ^ 1024" by (simp only: P_def) simp
  have "\<bar>a\<bar> < 2 ^ 1024" using a(2) by (rule round_double_finite)
  then have "\<bar>a\<bar> < P\<^sup>2" by (simp only: P2)
  then have "a \<le> P\<^sup>2" by (simp only: abs_less_iff less_imp_le)
  then have "sqrt a \<le> sqrt (P\<^sup>2)"
    by (rule real_sqrt_le_mono)
  then have "sqrt a \<le> P" using P by (simp only: real_sqrt_abs abs_of_nonneg)
  then have le: "sqrt a \<le> 2 ^ 512" by (simp only: P_def)
  have "0 \<le> sqrt a" using a(1) by simp
  from round_double_bounded [OF this le] r show ?thesis by auto
qed (use assms in simp_all)

lemma distance_bound: "distance p q = Num r \<Longrightarrow> 0 \<le> r \<and> r \<le> 2 ^ 512"
proof -
  assume r: "distance p q = Num r"
  have "is_length (js_add (js_pow2 (js_sub (Num (p_x p)) (Num (p_x q))))
                     (js_pow2 (js_sub (Num (p_y p)) (Num (p_y q)))))"
    by (intro js_add_length js_pow2_length) (simp_all add: js_sub_def)
  from js_sqrt_bound [OF this] r have "r \<le> 2 ^ 512" by (simp add: distance_def)
  moreover have "0 \<le> r" using distance_length [of p q] r by simp
  ultimately show ?thesis by simp
qed

lemma finite_distancesD:
  assumes "finite_distances points" "i < length points" "j < length points"
  shows "js_lt (distance (points ! i) (points ! j)) PosInf"
  using assms by (simp add: finite_distances_def list_all_length)

lemma finite_distance_num:
  assumes "finite_distances points" "i < length points" "j < length points"
  obtains r where "distance (points ! i) (points ! j) = Num r" "0 \<le> r" "r \<le> 2 ^ 512"
    "round_double r = Num r"
proof -
  from finite_distancesD [OF assms] distance_length [of "points ! i" "points ! j"]
  obtain r where r: "distance (points ! i) (points ! j) = Num r" "round_double r = Num r"
    by (cases "distance (points ! i) (points ! j)") simp_all
  with distance_bound [OF r(1)] that show ?thesis by simp
qed

section \<open>The loops that look for a least number\<close>

lemma min_fold_index:
  "snd acc \<noteq> None \<Longrightarrow> snd (fold (min_step cost idx) xs acc) \<noteq> None"
  by (induction xs arbitrary: acc) (auto simp: min_step_def split: option.splits)

lemma min_fold_found:
  assumes "\<exists>x \<in> set xs. \<exists>d. cost x = Some d \<and> js_lt d (fst acc)"
  shows "snd (fold (min_step cost idx) xs acc) \<noteq> None"
  using assms
proof (induction xs arbitrary: acc)
  case Nil
  then show ?case by simp
next
  case (Cons x xs)
  show ?case
  proof (cases "\<exists>d. cost x = Some d \<and> js_lt d (fst acc)")
    case True
    then have "snd (min_step cost idx x acc) \<noteq> None"
      by (auto simp: min_step_def)
    then show ?thesis by (simp add: min_fold_index)
  next
    case False
    then have same: "min_step cost idx x acc = acc"
      by (auto simp: min_step_def split: option.splits)
    from Cons.prems False have "\<exists>y \<in> set xs. \<exists>d. cost y = Some d \<and> js_lt d (fst acc)"
      by auto
    from Cons.IH [OF this] show ?thesis by (simp add: same)
  qed
qed

lemma min_fold_result:
  assumes "fold (min_step cost idx) xs acc = (m, k)"
  shows "(m, k) = acc \<or> (\<exists>x \<in> set xs. cost x = Some m \<and> k = Some (idx x) \<and> js_lt m (fst acc))"
  using assms
proof (induction xs arbitrary: acc)
  case Nil
  then show ?case by simp
next
  case (Cons x xs)
  from Cons.IH [of "min_step cost idx x acc"] Cons.prems
  have "(m, k) = min_step cost idx x acc \<or>
        (\<exists>y \<in> set xs. cost y = Some m \<and> k = Some (idx y)
            \<and> js_lt m (fst (min_step cost idx x acc)))"
    by simp
  then show ?case
  proof
    assume "(m, k) = min_step cost idx x acc"
    then show ?thesis
      by (auto simp: min_step_def split: option.splits if_splits)
  next
    assume "\<exists>y \<in> set xs. cost y = Some m \<and> k = Some (idx y)
            \<and> js_lt m (fst (min_step cost idx x acc))"
    then obtain y where y: "y \<in> set xs" "cost y = Some m" "k = Some (idx y)"
      "js_lt m (fst (min_step cost idx x acc))" by auto
    have "js_lt m (fst acc)"
    proof (cases "min_step cost idx x acc = acc")
      case True
      with y(4) show ?thesis by simp
    next
      case False
      then obtain d where d: "cost x = Some d" "js_lt d (fst acc)"
        "min_step cost idx x acc = (d, Some (idx x))"
        by (auto simp: min_step_def split: option.splits if_splits)
      with y(4) have "js_lt m d" by simp
      with d(2) show ?thesis by (cases m; cases d; cases "fst acc") auto
    qed
    with y show ?thesis by auto
  qed
qed

text \<open>The minimum that the loop keeps is at most every candidate and the start.\<close>

lemma min_fold_least:
  assumes "fold (min_step cost idx) xs acc = (m, k)" "fst acc \<noteq> NaN"
    and "\<And>x d. x \<in> set xs \<Longrightarrow> cost x = Some d \<Longrightarrow> d \<noteq> NaN"
  shows "js_le m (fst acc) \<and> (\<forall>x \<in> set xs. \<forall>d. cost x = Some d \<longrightarrow> js_le m d)"
  using assms
proof (induction xs arbitrary: acc)
  case Nil
  then show ?case by (auto simp: js_le_refl)
next
  case (Cons x xs)
  let ?a = "min_step cost idx x acc"
  have nn: "fst ?a \<noteq> NaN"
    using Cons.prems(2,3) by (auto simp: min_step_def split: option.splits)
  have "js_le m (fst ?a) \<and> (\<forall>y \<in> set xs. \<forall>d. cost y = Some d \<longrightarrow> js_le m d)"
    by (rule Cons.IH) (use Cons.prems nn in auto)
  then have m: "js_le m (fst ?a)" and rest: "\<forall>y \<in> set xs. \<forall>d. cost y = Some d \<longrightarrow> js_le m d"
    by simp_all
  have a1: "js_le (fst ?a) (fst acc)"
    using Cons.prems(2) by (auto simp: min_step_def js_le_refl js_lt_le split: option.splits)
  have a2: "js_le (fst ?a) d" if "cost x = Some d" for d
  proof -
    have "d \<noteq> NaN" using Cons.prems(3) [of x d] that by simp
    then show ?thesis
      using that Cons.prems(2) by (auto simp: min_step_def js_le_refl js_not_lt)
  qed
  from m a1 have "js_le m (fst acc)" by (rule js_le_trans)
  moreover have "js_le m d" if "cost x = Some d" for d
    using m a2 [OF that] by (rule js_le_trans)
  ultimately show ?case using rest by auto
qed

section \<open>Route lengths\<close>

lemma crd_Nil: "calculateRouteDistance [] = Num 0"
  by (simp add: calculateRouteDistance_def)

lemma crd_single: "calculateRouteDistance [p] = Num 0"
  by (simp add: calculateRouteDistance_def)

lemma crd_short: "length ps \<le> 1 \<Longrightarrow> calculateRouteDistance ps = Num 0"
  by (simp add: calculateRouteDistance_def)

lemma crd_snoc:
  assumes "xs \<noteq> []"
  shows "calculateRouteDistance (xs @ [y])
       = js_add (calculateRouteDistance xs) (distance (last xs) y)"
proof -
  have len: "length xs - 1 + 1 = length xs" using assms by (cases xs) auto
  have "[0..<length (xs @ [y]) - 1] = [0..<length xs - 1] @ [length xs - 1]"
    using assms by (cases xs) auto
  moreover have "\<And>a. fold (\<lambda>i total. js_add total (distance ((xs @ [y]) ! i) ((xs @ [y]) ! (i + 1))))
            [0..<length xs - 1] a
        = fold (\<lambda>i total. js_add total (distance (xs ! i) (xs ! (i + 1)))) [0..<length xs - 1] a"
    by (rule fold_cong) (auto simp: nth_append)
  ultimately show ?thesis
    using assms len by (simp add: calculateRouteDistance_def nth_append last_conv_nth)
qed

lemma crd_pair: "calculateRouteDistance [p, q] = distance p q"
  using crd_snoc [of "[p]" q] by (simp add: crd_single js_add_zero distance_double)

lemma crd_length: "is_length (calculateRouteDistance ps)"
proof (induction ps rule: rev_induct)
  case Nil
  then show ?case by (simp add: crd_Nil)
next
  case (snoc z zs)
  then show ?case
    by (cases "zs = []") (simp_all add: crd_single crd_snoc js_add_length distance_length)
qed

section \<open>The nearest-neighbor loop\<close>

lemma set_add_notin: "v \<notin> set s \<Longrightarrow> set_add v s = s @ [v]"
  by (simp add: set_add_def)

lemma nearest_step_min:
  "nearest_step points visited current
     = min_step (\<lambda>i. if i \<in> set visited then None
                     else Some (distance (points ! current) (points ! i))) (\<lambda>i. i)"
  by (intro ext) (auto simp: nearest_step_def min_step_def Let_def split: prod.splits)

lemma find_nearest_Some:
  assumes "find_nearest points visited current = (d, Some j)"
  shows "j < length points \<and> j \<notin> set visited \<and> d = distance (points ! current) (points ! j)"
proof -
  from assms have "fold (min_step (\<lambda>i. if i \<in> set visited then None
                     else Some (distance (points ! current) (points ! i))) (\<lambda>i. i))
            [0..<length points] (PosInf, None) = (d, Some j)"
    by (simp add: find_nearest_def nearest_step_min)
  from min_fold_result [OF this] show ?thesis
    by (auto split: if_splits)
qed

lemma find_nearest_found:
  assumes "finite_distances points" "current < length points"
    and "i < length points" "i \<notin> set visited"
  shows "snd (find_nearest points visited current) \<noteq> None"
  unfolding find_nearest_def nearest_step_min
proof (rule min_fold_found)
  show "\<exists>x \<in> set [0..<length points].
          \<exists>d. (if x \<in> set visited then None
                else Some (distance (points ! current) (points ! x))) = Some d
             \<and> js_lt d (fst (PosInf, None))"
    using assms(3,4) finite_distancesD [OF assms(1,2,3)]
    by (intro bexI [of _ i]) simp_all
qed

lemma distinct_full:
  assumes "distinct vs" "set vs \<subseteq> {..<n}"
  shows "length vs \<le> n" and "\<not> length vs < n \<Longrightarrow> set vs = {..<(n::nat)}"
proof -
  have c: "card (set vs) = length vs" using assms(1) by (simp add: distinct_card)
  have "card (set vs) \<le> card {..<n}" by (rule card_mono) (use assms in auto)
  then show le: "length vs \<le> n" using c by simp
  assume "\<not> length vs < n"
  with le have "card (set vs) = card {..<n}" using c by simp
  then show "set vs = {..<n}"
    using assms(2) by (simp add: card_subset_eq)
qed

lemma nn_loop_total:
  assumes "finite_distances points"
    and "distinct visited" "set visited \<subseteq> {..<length points}" "visited \<noteq> []"
  shows "\<exists>vs. nn_loop points visited (map ((!) points) visited) (last visited)
                 (calculateRouteDistance (map ((!) points) visited))
               = Some (map ((!) points) vs, last vs, calculateRouteDistance (map ((!) points) vs))
             \<and> distinct vs \<and> set vs = {..<length points}
             \<and> take (length visited) vs = visited"
  using assms(2-)
proof (induction "length points - length visited" arbitrary: visited rule: less_induct)
  case less
  note le = distinct_full(1) [OF less.prems(1,2)]
  show ?case
  proof (cases "length visited < length points")
    case False
    then have "set visited = {..<length points}"
      using distinct_full(2) [OF less.prems(1,2)] by simp
    with False less.prems(1) show ?thesis
      by (subst nn_loop.simps, intro exI [of _ visited]) simp
  next
    case True
    have "\<not> {..<length points} \<subseteq> set visited"
    proof
      assume "{..<length points} \<subseteq> set visited"
      then have "card {..<length points} \<le> card (set visited)" by (intro card_mono) auto
      then show False using True less.prems(1) by (simp add: distinct_card)
    qed
    then obtain i where i: "i < length points" "i \<notin> set visited" by auto
    have "last visited \<in> set visited" using less.prems(3) by (rule last_in_set)
    with less.prems(2) have "last visited \<in> {..<length points}" by (rule subsetD)
    then have cur: "last visited < length points" by simp
    from find_nearest_found [OF assms(1) cur i]
    obtain d j where fn: "find_nearest points visited (last visited) = (d, Some j)"
      by (cases "find_nearest points visited (last visited)") auto
    note fnp = find_nearest_Some [OF fn]
    let ?v = "visited @ [j]"
    have pre: "distinct ?v" "set ?v \<subseteq> {..<length points}" "?v \<noteq> []"
      using fnp less.prems by auto
    have m: "length points - length ?v < length points - length visited"
      using True by simp
    from less.hyps [OF m pre] obtain vs where
      vs: "nn_loop points ?v (map ((!) points) ?v) (last ?v)
             (calculateRouteDistance (map ((!) points) ?v))
           = Some (map ((!) points) vs, last vs, calculateRouteDistance (map ((!) points) vs))"
          "distinct vs" "set vs = {..<length points}" "take (length ?v) vs = ?v"
      by blast
    have crd: "calculateRouteDistance (map ((!) points) ?v)
        = js_add (calculateRouteDistance (map ((!) points) visited)) d"
      using less.prems(3) fnp crd_snoc [of "map ((!) points) visited" "points ! j"]
      by (simp add: last_map)
    have tk: "take (length visited) vs = visited"
    proof -
      have "take (length visited) (take (length ?v) vs) = take (length visited) ?v"
        using vs(4) by simp
      then show ?thesis by simp
    qed
    show ?thesis
      using True fn fnp vs(1-3) crd tk
      by (subst nn_loop.simps, intro exI [of _ vs]) (simp add: set_add_notin)
  qed
qed

lemma returns_routeD:
  "returns_route solver k label path d \<Longrightarrow>
     solver clk t = Some (\<lparr>r_path = path, r_distance = d,
                           r_timeMs = js_sub (Num (clk (t + k))) (Num (clk t)),
                           r_algorithm = label\<rparr>, Suc (t + k))"
  by (simp add: returns_route_def)

lemma returns_route_path:
  assumes "returns_route solver k label path d"
  shows "path_of (solver clk t) = Some path" "distance_of (solver clk t) = Some d"
  using returns_routeD [OF assms, of clk t] by (simp_all add: path_of_def distance_of_def)

lemma closed_route_cost:
  assumes "vs \<noteq> []"
  shows "calculateRouteDistance (closed_route points vs)
       = js_add (calculateRouteDistance (map ((!) points) vs))
           (distance (points ! last vs) (points ! 0))"
  using crd_snoc [of "map ((!) points) vs" "points ! 0"] assms
  by (simp add: closed_route_def last_map)

lemma nn_result:
  assumes "2 \<le> length points" "finite_distances points"
  shows "\<exists>vs. is_tour (length points) vs \<and>
           returns_route (\<lambda>clk t. solveTSPNearestNeighbor clk t points) 1
             ''Nearest Neighbor (Greedy)'' (closed_route points vs)
             (calculateRouteDistance (closed_route points vs))"
proof -
  have "\<exists>vs. nn_loop points [0] (map ((!) points) [0]) (last [0])
                 (calculateRouteDistance (map ((!) points) [0]))
               = Some (map ((!) points) vs, last vs, calculateRouteDistance (map ((!) points) vs))
             \<and> distinct vs \<and> set vs = {..<length points}
             \<and> take (length [0::nat]) vs = [0]"
    by (rule nn_loop_total) (use assms in auto)
  then obtain vs where
    vs: "nn_loop points [0] [points ! 0] 0 (Num 0)
           = Some (map ((!) points) vs, last vs, calculateRouteDistance (map ((!) points) vs))"
        "distinct vs" "set vs = {..<length points}" "take 1 vs = [0]"
    by (auto simp: crd_single)
  have ne: "vs \<noteq> []" using vs(4) by auto
  then have hd: "hd vs = 0" using vs(4) by (cases vs) auto
  have tour: "is_tour (length points) vs"
    using vs(2,3) hd by (simp add: is_tour_def)
  have "returns_route (\<lambda>clk t. solveTSPNearestNeighbor clk t points) 1
             ''Nearest Neighbor (Greedy)'' (closed_route points vs)
             (calculateRouteDistance (closed_route points vs))"
    using assms(1) vs(1) closed_route_cost [OF ne, of points]
    by (simp add: returns_route_def solveTSPNearestNeighbor_def performance_now_def set_add_def
        closed_route_def)
  with tour show ?thesis by blast
qed

lemma nn_small:
  "length points \<le> 1 \<Longrightarrow>
     solveTSPNearestNeighbor clk t points
       = Some (\<lparr>r_path = points, r_distance = Num 0, r_timeMs = Num 0,
                 r_algorithm = ''Nearest Neighbor''\<rparr>, Suc t)"
  by (simp add: solveTSPNearestNeighbor_def performance_now_def)

lemma exact_small:
  "length points \<le> 1 \<Longrightarrow>
     solveTSPExactDP clk t points
       = Some (\<lparr>r_path = points, r_distance = Num 0, r_timeMs = Num 0,
                 r_algorithm = ''Exact DP (Held-Karp)''\<rparr>, Suc t)"
  by (simp add: solveTSPExactDP_def performance_now_def)

lemma two_opt_small:
  "length points \<le> 2 \<Longrightarrow>
     solveTSP2Opt clk t points
       = Some (\<lparr>r_path = points, r_distance = calculateRouteDistance points, r_timeMs = Num 0,
                 r_algorithm = ''2-Opt''\<rparr>, Suc t)"
  by (simp add: solveTSP2Opt_def performance_now_def)

lemma christofides_small:
  "length points \<le> 2 \<Longrightarrow>
     solveTSPChristofides clk t points
       = Some (\<lparr>r_path = points, r_distance = calculateRouteDistance points, r_timeMs = Num 0,
                 r_algorithm = ''Christofides''\<rparr>, Suc t)"
  by (simp add: solveTSPChristofides_def performance_now_def)

section \<open>Distances of the sample inputs\<close>

lemma round_double_dyadic:
  assumes "\<bar>m\<bar> < 2 ^ 53" "j \<le> 1074"
  shows "round_double (of_int m / 2 ^ j) = Num (of_int m / 2 ^ j)"
proof (rule round_double_exact [where m = m and k = "- int j"])
  have "2 powr (- real j) = inverse (2 powr real j)" by (rule powr_minus)
  also have "\<dots> = inverse (2 ^ j)" by (simp add: powr_realpow)
  finally show "real_of_int m / 2 ^ j = of_int m * 2 powr of_int (- int j)"
    by (simp add: divide_inverse)
  show "\<bar>m\<bar> < 2 ^ 53" by fact
  show "- 1074 \<le> - int j" using assms(2) by simp
  have "\<bar>real_of_int m / 2 ^ j\<bar> = real_of_int \<bar>m\<bar> / 2 ^ j" by simp
  also have "\<dots> \<le> real_of_int \<bar>m\<bar> / 1"
    by (rule divide_left_mono) simp_all
  also have "\<dots> < 2 ^ 53"
    using assms(1) by (metis div_by_1 of_int_less_iff of_int_numeral of_int_power)
  also have "\<dots> < (2 :: real) ^ 1024" by (rule power_strict_increasing) simp_all
  finally show "\<bar>real_of_int m / 2 ^ j\<bar> < 2 ^ 1024" .
qed

text \<open>
  Two points of a horizontal line whose abscissas are multiples of \<open>2 ^ - s\<close>: the
  distance is computed without rounding.
\<close>

lemma distance_line:
  assumes "\<bar>a - b\<bar> < 2 ^ 26" "s \<le> 500"
  shows "distance (mk_point n1 (of_int a / 2 ^ s) y) (mk_point n2 (of_int b / 2 ^ s) y)
       = Num (of_int \<bar>a - b\<bar> / 2 ^ s)"
proof -
  define c where "c = a - b"
  define v :: real where "v = of_int c / 2 ^ s"
  have c: "\<bar>c\<bar> < 2 ^ 26" using assms(1) by (simp add: c_def)
  have c53: "\<bar>c\<bar> < 2 ^ 53" using c by (rule less_trans) simp
  then have dx: "round_double v = Num v"
    unfolding v_def using assms(2) by (intro round_double_dyadic) simp_all
  have "\<bar>c\<bar> * \<bar>c\<bar> < 2 ^ 26 * 2 ^ 26"
    using c by (intro mult_strict_mono) simp_all
  then have "\<bar>c * c\<bar> < 2 ^ 53" by (simp add: abs_mult)
  then have e: "round_double (of_int (c * c) / 2 ^ (2 * s)) = Num (of_int (c * c) / 2 ^ (2 * s))"
    using assms(2) by (intro round_double_dyadic) simp_all
  have "real_of_int (c * c) / 2 ^ (2 * s) = v * v"
    by (simp add: v_def mult_2 power_add)
  with e have sq: "round_double (v * v) = Num (v * v)"
    by (simp only:)
  have "\<bar>\<bar>c\<bar>\<bar> < 2 ^ 53" using c53 by simp
  then have "round_double (of_int \<bar>c\<bar> / 2 ^ s) = Num (of_int \<bar>c\<bar> / 2 ^ s)"
    using assms(2) by (intro round_double_dyadic) simp_all
  moreover have av: "real_of_int \<bar>c\<bar> / 2 ^ s = \<bar>v\<bar>" by (simp add: v_def)
  ultimately have rt: "round_double \<bar>v\<bar> = Num \<bar>v\<bar>" by (simp only:)
  have sqrt: "sqrt (v * v) = \<bar>v\<bar>" by (rule real_sqrt_abs2)
  have diff: "real_of_int a / 2 ^ s - real_of_int b / 2 ^ s = v"
    by (simp add: v_def c_def diff_divide_distrib)
  have "distance (mk_point n1 (of_int a / 2 ^ s) y) (mk_point n2 (of_int b / 2 ^ s) y)
      = js_sqrt (js_add (js_pow2 (round_double v)) (js_pow2 (round_double 0)))"
    by (simp add: distance_def mk_point_def js_sub_def diff)
  also have "\<dots> = js_sqrt (round_double (v * v + 0))"
    by (simp add: dx js_pow2_def sq)
  also have "\<dots> = round_double (sqrt (v * v))"
    by (simp add: sq)
  also have "\<dots> = Num \<bar>v\<bar>" by (simp only: sqrt rt)
  finally show ?thesis
    using av by (simp add: c_def)
qed

lemma distance_line_int:
  assumes "\<bar>a - b\<bar> < 2 ^ 26"
  shows "distance (mk_point n1 (of_int a) y) (mk_point n2 (of_int b) y) = Num (of_int \<bar>a - b\<bar>)"
  using distance_line [OF assms, of 0 n1 y n2] by simp

lemma distance_pair [simp]: "distance pA pB = Num 3" "distance pB pA = Num 3"
  using distance_line_int [of 0 3 "''A''" 0 "''B''"] distance_line_int [of 3 0 "''B''" 0 "''A''"]
  by (simp_all add: pA_def pB_def)

lemma line_points_finite:
  assumes "n \<le> 1000000"
  shows "finite_distances (line_points n)"
proof -
  have "js_lt (distance (line_points n ! i) (line_points n ! j)) PosInf"
    if "i < n" "j < n" for i j
  proof -
    have "\<bar>int i - int j\<bar> < 1000000" using that assms by linarith
    also have "\<dots> < (2 :: int) ^ 26" by simp
    finally have "distance (mk_point ''P'' (of_int (int i)) 0) (mk_point ''P'' (of_int (int j)) 0)
       = Num (of_int \<bar>int i - int j\<bar>)"
      by (rule distance_line_int)
    then show ?thesis using that by (simp add: line_points_def)
  qed
  then show ?thesis by (simp add: finite_distances_def list_all_length line_points_def)
qed

lemma distance_huge: "distance pA pHuge = PosInf"
proof -
  define P :: real where "P = 2 ^ 512"
  have "round_double (- P) = js_neg (round_double P)"
    by (rule round_double_minus)
  then have dx: "round_double (- P) = Num (- P)"
    unfolding P_def by (simp only: round_double_pow2) simp
  have "(2 :: real) ^ (512 + 512) = P * P" unfolding P_def by (rule power_add)
  then have "(2 :: real) ^ 1024 \<le> P * P" by simp
  then have sq: "round_double (P * P) = PosInf"
    by (rule round_double_overflow)
  have "p_x pHuge = P" "p_y pHuge = 0" by (simp_all only: pHuge_def P_def mk_point_def Point.simps)
  then show ?thesis
    unfolding distance_def pA_def mk_point_def
    by (simp add: js_sub_def js_pow2_def dx sq)
qed

section \<open>Rounding of numerals\<close>

lemma round_double_numeral:
  "(numeral w :: int) < 2 ^ 53 \<Longrightarrow> round_double (numeral w) = Num (numeral w)"
  using round_double_int [of "numeral w"] by simp

lemma round_double_neg_numeral:
  "(numeral w :: int) < 2 ^ 53 \<Longrightarrow> round_double (- numeral w) = Num (- numeral w)"
  using round_double_int [of "- numeral w"] by simp

lemma round_double_one [simp]: "round_double 1 = Num 1"
  using round_double_int [of 1] by simp

section \<open>Degenerate inputs\<close>

text \<open>
  C7. For every algorithm selector, \<open>solveTSP\<close> on an input of 0 or 1 points returns a
  result whose distance is 0 and whose path is the input itself.
\<close>

theorem degenerate_inputs:
  "length points \<le> 1 \<Longrightarrow>
     \<exists>r t'. solveTSP fmt clk t points algorithm = Some (r, t')
        \<and> r_distance r = Num 0 \<and> r_path r = points"
  by (cases algorithm)
     (auto simp: solveTSP_def solveTSPExactDP_def solveTSPNearestNeighbor_def solveTSP2Opt_def
        solveTSPChristofides_def performance_now_def crd_short)

theorem degenerate_inputs_witness:
  "length [pA] \<le> 1 \<and>
     (\<exists>r t'. solveTSP fmt0 tick 0 [pA] TwoOpt = Some (r, t')
        \<and> r_distance r = Num 0 \<and> r_path r = [pA])"
  using degenerate_inputs [of "[pA]" fmt0 tick 0 TwoOpt] by simp

section \<open>The size limit of the exact solver\<close>

text \<open>
  C4. With more than 20 points, \<open>solveTSP\<close> with selector \<open>exact-dp\<close> returns the result of
  the nearest-neighbor solver under a label that tells the substitution, which is not the
  label of the exact solver; with 20 points or fewer it runs the exact solver. The
  nearest-neighbor solver does return when all distances between the points are finite.
\<close>

theorem dp_size_limit:
  "(20 < length points \<longrightarrow>
      solveTSP fmt clk t points ExactDP
        = map_option (\<lambda>(r, t'). (r\<lparr>r_algorithm := ''Nearest Neighbor (DP limit exceeded)''\<rparr>, t'))
            (solveTSPNearestNeighbor clk t points)
      \<and> ''Nearest Neighbor (DP limit exceeded)'' \<noteq> ''Exact DP (Held-Karp)''
      \<and> (finite_distances points \<longrightarrow>
           (\<exists>r t'. solveTSPNearestNeighbor clk t points = Some (r, t')
              \<and> solveTSP fmt clk t points ExactDP
                  = Some (r\<lparr>r_algorithm := ''Nearest Neighbor (DP limit exceeded)''\<rparr>, t'))))
   \<and> (length points \<le> 20 \<longrightarrow>
        solveTSP fmt clk t points ExactDP = solveTSPExactDP clk t points)"
proof (intro conjI impI)
  assume big: "20 < length points"
  then show eq: "solveTSP fmt clk t points ExactDP
        = map_option (\<lambda>(r, t'). (r\<lparr>r_algorithm := ''Nearest Neighbor (DP limit exceeded)''\<rparr>, t'))
            (solveTSPNearestNeighbor clk t points)"
    by (simp add: solveTSP_def split: option.splits)
  show "''Nearest Neighbor (DP limit exceeded)'' \<noteq> ''Exact DP (Held-Karp)''" by simp
  assume "finite_distances points"
  with big obtain vs where "returns_route (\<lambda>clk t. solveTSPNearestNeighbor clk t points) 1
             ''Nearest Neighbor (Greedy)'' (closed_route points vs)
             (calculateRouteDistance (closed_route points vs))"
    using nn_result [of points] by auto
  from returns_routeD [OF this, of clk t]
  show "\<exists>r t'. solveTSPNearestNeighbor clk t points = Some (r, t')
         \<and> solveTSP fmt clk t points ExactDP
             = Some (r\<lparr>r_algorithm := ''Nearest Neighbor (DP limit exceeded)''\<rparr>, t')"
    unfolding eq by simp
next
  assume "length points \<le> 20"
  then show "solveTSP fmt clk t points ExactDP = solveTSPExactDP clk t points"
    by (simp add: solveTSP_def)
qed

theorem dp_size_limit_witness:
  "20 < length (line_points 21) \<and> finite_distances (line_points 21) \<and> length [pA, pB] \<le> 20
   \<and> (\<exists>r t'. solveTSPNearestNeighbor tick 0 (line_points 21) = Some (r, t')
         \<and> solveTSP fmt0 tick 0 (line_points 21) ExactDP
             = Some (r\<lparr>r_algorithm := ''Nearest Neighbor (DP limit exceeded)''\<rparr>, t'))
   \<and> solveTSP fmt0 tick 0 [pA, pB] ExactDP = solveTSPExactDP tick 0 [pA, pB]"
proof -
  have f: "finite_distances (line_points 21)" by (rule line_points_finite) simp
  have l: "length (line_points 21) = 21" by (simp add: line_points_def)
  have big: "20 < length (line_points 21)" by (simp add: l)
  have small: "length [pA, pB] \<le> 20" by simp
  show ?thesis
    using dp_size_limit [of "line_points 21" fmt0 tick 0] dp_size_limit [of "[pA, pB]" fmt0 tick 0]
      f big small
    by blast
qed

section \<open>The fallback of the grid pathfinder\<close>

text \<open>
  C6. When the open set of the A* search is exhausted without reaching the goal,
  \<open>aStarPathfinding\<close> returns the direct path from start to goal, whose distance is the
  Euclidean distance between the two.
\<close>

theorem astar_fallback:
  "astar_loop fmt goal (set (map (\<lambda>ob. (js_round (p_x ob), js_round (p_y ob))) obstacles))
       gridSize [AStarNode start (Num 0) (distance start goal) (distance start goal) None] []
     = Some None \<Longrightarrow>
   aStarPathfinding fmt clk t start goal obstacles gridSize
     = Some (\<lparr>r_path = [start, goal], r_distance = distance start goal,
               r_timeMs = js_sub (Num (clk (Suc t))) (Num (clk t)),
               r_algorithm = ''A* Pathfinding (Direct)''\<rparr>, Suc (Suc t))"
  by (simp add: aStarPathfinding_def performance_now_def)

lemma distance_far: "\<not> js_lt (distance pA pFar) (Num 1)"
proof -
  have "round_double (sqrt 1) = Num 1" by simp
  moreover have "js_le (round_double (sqrt 1)) (round_double (sqrt 5000))"
    by (intro round_double_mono real_sqrt_le_mono) simp
  ultimately have "js_le (Num 1) (round_double (sqrt 5000))" by simp
  then have "\<not> js_lt (round_double (sqrt 5000)) (Num 1)"
    by (cases "round_double (sqrt 5000)") simp_all
  then show ?thesis
    by (simp add: distance_def pA_def pFar_def mk_point_def js_sub_def js_pow2_def
        round_double_numeral round_double_neg_numeral)
qed

lemma walled_in_exhausted:
  "astar_loop fmt0 pFar (set (map (\<lambda>ob. (js_round (p_x ob), js_round (p_y ob))) wall))
       100 [AStarNode pA (Num 0) (distance pA pFar) (distance pA pFar) None] []
     = Some None"
proof -
  define obs where "obs = set (map (\<lambda>ob. (js_round (p_x ob), js_round (p_y ob))) wall)"
  have obs: "(2, 0) \<in> obs" "(0, 2) \<in> obs" "(2, 2) \<in> obs"
    by (simp_all add: obs_def wall_def js_round_def mk_point_def)
  have e: "expand fmt0 pFar obs 100 (AStarNode pA g h f None) [] = []" for g h f
    using obs
    by (simp add: expand_def directions_def neighbor_step_def js_round_def pA_def
        mk_point_def round_double_numeral round_double_neg_numeral)
  have stop: "astar_loop fmt0 pFar obs 100 [] closed = Some None" for closed
    by (subst astar_loop.simps) (simp add: sort_open_def)
  have "astar_loop fmt0 pFar obs 100
          [AStarNode pA (Num 0) (distance pA pFar) (distance pA pFar) None] [] = Some None"
    using distance_far
    by (subst astar_loop.simps) (simp add: sort_open_def e stop)
  then show ?thesis by (simp only: obs_def)
qed

theorem astar_fallback_witness:
  "astar_loop fmt0 pFar (set (map (\<lambda>ob. (js_round (p_x ob), js_round (p_y ob))) wall))
       100 [AStarNode pA (Num 0) (distance pA pFar) (distance pA pFar) None] []
     = Some None \<and>
   aStarPathfinding fmt0 tick 0 pA pFar wall 100
     = Some (\<lparr>r_path = [pA, pFar], r_distance = distance pA pFar,
               r_timeMs = js_sub (Num (tick (Suc 0))) (Num (tick 0)),
               r_algorithm = ''A* Pathfinding (Direct)''\<rparr>, Suc (Suc 0))"
  using astar_fallback [of fmt0 pFar wall 100 pA tick 0] walled_in_exhausted by simp

section \<open>The segment reversal of 2-opt\<close>

lemma reverse_segment_eq:
  "left \<le> Suc right \<Longrightarrow> right < length path \<Longrightarrow>
     reverse_segment path left right
       = take left path @ rev (take (Suc right - left) (drop left path)) @ drop (Suc right) path"
proof (induction path left right rule: reverse_segment.induct)
  case (1 path left right)
  show ?case
  proof (cases "left < right")
    case False
    with "1.prems" consider "left = right" | "left = Suc right" by linarith
    then show ?thesis
    proof cases
      case 1
      then show ?thesis
        using False "1.prems"
        by (subst reverse_segment.simps) (simp add: take_Suc_conv_app_nth Cons_nth_drop_Suc)
    next
      case 2
      then show ?thesis
        using False by (subst reverse_segment.simps) simp
    qed
  next
    case True
    let ?p = "path[left := path ! right, right := path ! left]"
    have l: "Suc left \<le> Suc (right - 1)" "right - 1 < length ?p" using True "1.prems" by auto
    have step: "reverse_segment path left right = reverse_segment ?p (Suc left) (right - 1)"
      using True by (subst reverse_segment.simps) simp
    have ih: "reverse_segment ?p (Suc left) (right - 1)
        = take (Suc left) ?p @ rev (take (Suc (right - 1) - Suc left) (drop (Suc left) ?p))
            @ drop (Suc (right - 1)) ?p"
      using "1.IH" [OF True l] .
    have r1: "Suc (right - 1) = right" using True by simp
    have a: "take (Suc left) ?p = take left path @ [path ! right]"
      using True "1.prems" by (simp add: take_Suc_conv_app_nth nth_list_update)
    have b: "drop right ?p = path ! left # drop (Suc right) path"
    proof -
      have "drop right ?p = ?p ! right # drop (Suc right) ?p"
        by (rule Cons_nth_drop_Suc [symmetric]) (use "1.prems" in simp)
      moreover have "?p ! right = path ! left" using "1.prems" by simp
      moreover have "drop (Suc right) ?p = drop (Suc right) path"
        using True by simp
      ultimately show ?thesis by simp
    qed
    have c: "take (right - Suc left) (drop (Suc left) ?p)
           = take (right - Suc left) (drop (Suc left) path)"
    proof (rule nth_equalityI)
      show "length (take (right - Suc left) (drop (Suc left) ?p))
          = length (take (right - Suc left) (drop (Suc left) path))" by simp
    next
      fix i assume "i < length (take (right - Suc left) (drop (Suc left) ?p))"
      then have "i < right - Suc left" "Suc left + i < length path" by auto
      then show "take (right - Suc left) (drop (Suc left) ?p) ! i
               = take (right - Suc left) (drop (Suc left) path) ! i"
        by (simp add: nth_list_update)
    qed
    have d: "take (Suc right - left) (drop left path)
           = path ! left # take (right - Suc left) (drop (Suc left) path) @ [path ! right]"
    proof -
      have "drop left path = path ! left # drop (Suc left) path"
        using True "1.prems" by (simp add: Cons_nth_drop_Suc)
      moreover have "Suc right - left = Suc (Suc (right - Suc left))" using True by simp
      moreover have "take (Suc (right - Suc left)) (drop (Suc left) path)
           = take (right - Suc left) (drop (Suc left) path) @ [path ! right]"
        using True "1.prems" by (simp add: take_Suc_conv_app_nth)
      ultimately show ?thesis by simp
    qed
    show ?thesis
      unfolding step ih r1 a b c d by simp
  qed
qed

section \<open>Tours as permutations of the input\<close>

lemma mset_map_perm:
  assumes "distinct vs" "set vs = {..<length points}"
  shows "mset (map ((!) points) vs) = mset points"
proof -
  have "set vs = set [0..<length points]"
    unfolding assms(2) by (simp add: lessThan_atLeast0)
  then have "mset vs = mset [0..<length points]"
    using set_eq_iff_mset_eq_distinct [OF assms(1) distinct_upt, of 0 "length points"] by blast
  then have "image_mset ((!) points) (mset vs) = image_mset ((!) points) (mset [0..<length points])"
    by simp
  then have "mset (map ((!) points) vs) = mset (map ((!) points) [0..<length points])"
    by simp
  then show ?thesis by (simp add: map_nth)
qed

lemma is_tour_mset: "is_tour (length points) vs \<Longrightarrow> mset (map ((!) points) vs) = mset points"
  unfolding is_tour_def by (elim conjE) (rule mset_map_perm)

lemma is_tour_nonempty:
  assumes "is_tour n vs" "0 < n"
  shows "vs \<noteq> []"
proof -
  have "0 \<in> {..<n}" using assms(2) by simp
  then have "0 \<in> set vs" using assms(1) unfolding is_tour_def by blast
  then show ?thesis by (cases vs) simp_all
qed

lemma is_tour_first:
  assumes "is_tour (length points) vs" "points \<noteq> []"
  shows "map ((!) points) vs ! 0 = points ! 0"
proof -
  have "vs \<noteq> []" using is_tour_nonempty [OF assms(1)] assms(2) by simp
  then show ?thesis using assms(1) by (simp add: is_tour_def hd_conv_nth)
qed

lemma is_tour_two: 
  assumes "is_tour 2 vs"
  shows "vs = [0, 1]"
proof -
  have d: "distinct vs" and s: "set vs = {..<2}" and h: "hd vs = 0"
    using assms by (simp_all add: is_tour_def)
  have "length vs = 2" using d s distinct_card [of vs] by simp
  then obtain a b where ab: "vs = [a, b]"
    by (cases vs; cases "tl vs") auto
  have "a = 0" using h ab by simp
  moreover have "b < 2" using s ab by auto
  moreover have "b \<noteq> a" using d ab by simp
  ultimately show ?thesis using ab by simp
qed

lemma closed_route_two:
  assumes "length points = 2" "is_tour (length points) vs"
  shows "closed_route points vs = points @ [points ! 0]"
proof -
  have "vs = [0, 1]" using assms is_tour_two by simp
  moreover have "map ((!) points) [0, 1] = points"
    using assms(1) by (intro nth_equalityI) (auto simp: less_Suc_eq numeral_2_eq_2)
  ultimately show ?thesis by (simp add: closed_route_def)
qed

text \<open>
  C3. For every input point list, the distance of the result of \<open>solveTSP2Opt\<close> is at most
  the distance of the result of \<open>solveTSPNearestNeighbor\<close>, its seed tour, on the same input.
\<close>

section \<open>2-opt keeps a visiting order\<close>

lemma reverse_segment_map:
  assumes "left \<le> Suc right" "right < length xs"
  shows "map f (reverse_segment xs left right) = reverse_segment (map f xs) left right"
  using assms by (simp add: reverse_segment_eq take_map drop_map rev_map)

lemma reverse_segment_mset:
  assumes "left \<le> Suc right" "right < length xs"
  shows "mset (reverse_segment xs left right) = mset xs"
proof -
  have "mset (take (Suc right - left) (drop left xs)) + mset (drop (Suc right - left) (drop left xs))
      = mset (drop left xs)"
    by (metis append_take_drop_id mset_append)
  moreover have "drop (Suc right - left) (drop left xs) = drop (Suc right) xs"
    using assms by simp
  moreover have "mset (take left xs) + mset (drop left xs) = mset xs"
    by (metis append_take_drop_id mset_append)
  ultimately show ?thesis
    using assms by (simp add: reverse_segment_eq)
qed

lemma reverse_segment_first:
  assumes "0 < left" "left \<le> Suc right" "right < length xs"
  shows "reverse_segment xs left right ! 0 = xs ! 0"
  using assms by (simp add: reverse_segment_eq nth_append)

lemma is_tour_length: "is_tour n vs \<Longrightarrow> length vs = n"
  using distinct_card [of vs] by (simp add: is_tour_def)

lemma is_tour_reverse:
  assumes "is_tour n vs" "0 < left" "left \<le> Suc right" "right < n"
  shows "is_tour n (reverse_segment vs left right)"
proof -
  have len: "length vs = n" using assms(1) by (rule is_tour_length)
  have d: "distinct vs" and s: "set vs = {..<n}" and h: "hd vs = 0"
    using assms(1) by (simp_all add: is_tour_def)
  have m: "mset (reverse_segment vs left right) = mset vs"
    using assms(3,4) len by (intro reverse_segment_mset) simp_all
  have f: "reverse_segment vs left right ! 0 = vs ! 0"
    using assms(2,3,4) len by (intro reverse_segment_first) simp_all
  have ne: "vs \<noteq> []" using len assms(4) by auto
  have ne': "reverse_segment vs left right \<noteq> []"
    using m ne by (metis mset_zero_iff)
  have "distinct (reverse_segment vs left right)"
    using m d by (metis mset_eq_imp_distinct_iff)
  moreover have "set (reverse_segment vs left right) = {..<n}"
    using m s by (metis mset_eq_setD)
  moreover have "hd (reverse_segment vs left right) = 0"
    using f h ne ne' by (simp add: hd_conv_nth)
  ultimately show ?thesis by (simp add: is_tour_def)
qed

lemma tour_path_length: "tour_path points path \<Longrightarrow> length path = length points"
  by (auto simp: tour_path_def is_tour_length)

lemma two_opt_j_step_tour:
  assumes "tour_path points path" "i + 2 \<le> j" "j < length path"
  shows "tour_path points (fst (two_opt_j_step i j (path, imp)))"
proof -
  from assms(1) obtain vs where vs: "is_tour (length points) vs" "path = map ((!) points) vs"
    by (auto simp: tour_path_def)
  have len: "length vs = length points" using vs(1) by (rule is_tour_length)
  have j: "j < length points" using assms(3) vs(2) len by simp
  have "is_tour (length points) (reverse_segment vs (i + 1) j)"
    using vs(1) assms(2) j by (intro is_tour_reverse) simp_all
  moreover have "reverse_segment path (i + 1) j = map ((!) points) (reverse_segment vs (i + 1) j)"
    unfolding vs(2) using assms(2) j len by (intro reverse_segment_map [symmetric]) simp_all
  ultimately have "tour_path points (reverse_segment path (i + 1) j)"
    unfolding tour_path_def by blast
  then show ?thesis
    using assms(1) by (simp add: two_opt_j_step_def Let_def)
qed

lemma two_opt_j_fold_tour:
  "tour_path points path \<Longrightarrow> \<forall>j \<in> set js. i + 2 \<le> j \<and> j < length points \<Longrightarrow>
     tour_path points (fst (fold (two_opt_j_step i) js (path, imp)))"
proof (induction js arbitrary: path imp)
  case Nil
  then show ?case by simp
next
  case (Cons j js)
  obtain path' imp' where st: "two_opt_j_step i j (path, imp) = (path', imp')"
    by (cases "two_opt_j_step i j (path, imp)")
  have "j < length path" using Cons.prems tour_path_length [of points path] by simp
  then have "tour_path points path'"
    using two_opt_j_step_tour [of points path i j imp] Cons.prems st by simp
  from Cons.IH [OF this, of imp'] Cons.prems(2) show ?case by (simp add: st)
qed

lemma two_opt_i_step_tour:
  assumes "tour_path points (fst st)"
  shows "tour_path points (fst (two_opt_i_step i st))"
proof -
  obtain path imp where st: "st = (path, imp)" by (cases st)
  have "length path = length points" using assms st tour_path_length by simp
  then show ?thesis
    using assms unfolding st two_opt_i_step_def fst_conv
    by (intro two_opt_j_fold_tour) simp_all
qed

lemma two_opt_i_fold_tour:
  "tour_path points (fst st) \<Longrightarrow> tour_path points (fst (fold two_opt_i_step is st))"
proof (induction "is" arbitrary: st)
  case Nil
  then show ?case by simp
next
  case (Cons i "is")
  from Cons.IH [OF two_opt_i_step_tour [OF Cons.prems, of i]] show ?case by simp
qed

lemma two_opt_pass_tour: "tour_path points path \<Longrightarrow> tour_path points (fst (two_opt_pass path))"
  using two_opt_i_fold_tour [of points "(path, False)"] by (simp add: two_opt_pass_def)

lemma two_opt_loop_tour: "tour_path points path \<Longrightarrow> tour_path points (two_opt_loop k path)"
proof (induction k arbitrary: path)
  case 0
  then show ?case by simp
next
  case (Suc k)
  obtain path' imp where st: "two_opt_pass path = (path', imp)" by (cases "two_opt_pass path")
  have "tour_path points path'" using two_opt_pass_tour [OF Suc.prems] st by simp
  then show ?case using Suc.IH [of path'] by (simp add: st)
qed

lemma closed_route_closes:
  assumes "is_tour (length points) vs" "points \<noteq> []"
  shows "closes_tour points (closed_route points vs)"
proof -
  have ne: "vs \<noteq> []" using assms by (intro is_tour_nonempty [of "length points"]) simp_all
  have "hd vs = 0" using assms(1) by (simp add: is_tour_def)
  then have "hd (map ((!) points) vs) = points ! 0"
    using ne by (simp add: hd_map)
  then show ?thesis
    using ne is_tour_mset [OF assms(1)] by (simp add: closes_tour_def closed_route_def)
qed

lemma two_opt_tour:
  assumes "3 \<le> length points" "finite_distances points"
  shows "\<exists>vs. is_tour (length points) vs
         \<and> returns_route (\<lambda>clk t. solveTSP2Opt clk t points) 3
             ''2-Opt Local Search'' (closed_route points vs)
             (calculateRouteDistance (closed_route points vs))"
proof -
  have "2 \<le> length points" using assms(1) by simp
  from nn_result [OF this assms(2)] obtain ws where
    tour: "is_tour (length points) ws"
    and nn: "returns_route (\<lambda>clk t. solveTSPNearestNeighbor clk t points) 1
             ''Nearest Neighbor (Greedy)'' (closed_route points ws)
             (calculateRouteDistance (closed_route points ws))"
    by (elim exE conjE)
  define path0 where "path0 = two_opt_loop maxIterations (map ((!) points) ws)"
  have "tour_path points (map ((!) points) ws)" using tour unfolding tour_path_def by blast
  then have "tour_path points path0" unfolding path0_def by (rule two_opt_loop_tour)
  then obtain vs where vs: "is_tour (length points) vs" "path0 = map ((!) points) vs"
    unfolding tour_path_def by blast
  have "points \<noteq> []" using assms by auto
  then have "path0 ! 0 = points ! 0" unfolding vs(2) using vs(1) by (rule is_tour_first [rotated])
  then have c: "path0 @ [path0 ! 0] = closed_route points vs"
    by (simp add: closed_route_def vs(2))
  have bl: "butlast (closed_route points ws) = map ((!) points) ws"
    by (simp add: closed_route_def)
  have "returns_route (\<lambda>clk t. solveTSP2Opt clk t points) 3
             ''2-Opt Local Search'' (closed_route points vs)
             (calculateRouteDistance (closed_route points vs))"
    unfolding returns_route_def
  proof (intro allI)
    fix clk t
    note returns_routeD [OF nn, of clk "Suc t"]
    then show "solveTSP2Opt clk t points =
         Some (\<lparr>r_path = closed_route points vs,
                  r_distance = calculateRouteDistance (closed_route points vs),
                  r_timeMs = js_sub (Num (clk (t + 3))) (Num (clk t)),
                  r_algorithm = ''2-Opt Local Search''\<rparr>, Suc (t + 3))"
      using assms(1) c
      by (simp add: solveTSP2Opt_def performance_now_def bl path0_def [symmetric] Let_def
          numeral_3_eq_3)
  qed
  with vs(1) show ?thesis by blast
qed

section \<open>Prim's algorithm builds a spanning tree\<close>

lemma prim_min_step_min:
  "prim_min_step inMST key
     = min_step (\<lambda>i. if \<not> inMST ! i then Some (key ! i) else None) (\<lambda>i. i)"
  by (intro ext) (auto simp: prim_min_step_def min_step_def split: prod.splits)

lemma prim_min_Some:
  assumes "prim_min n inMST key = (k, Some u)"
  shows "u < n \<and> \<not> inMST ! u \<and> key ! u = k \<and> js_lt k PosInf"
proof -
  from assms have "fold (min_step (\<lambda>i. if \<not> inMST ! i then Some (key ! i) else None) (\<lambda>i. i))
            [0..<n] (PosInf, None) = (k, Some u)"
    by (simp add: prim_min_def prim_min_step_min)
  from min_fold_result [OF this] show ?thesis
    by (auto split: if_splits)
qed

lemma prim_update_fold:
  assumes "distinct vs" "set vs \<subseteq> {..<length key}" "length parent = length key"
  shows "length (fst (fold (prim_update_step points inMST u) vs (key, parent))) = length key
       \<and> length (snd (fold (prim_update_step points inMST u) vs (key, parent))) = length key
       \<and> (\<forall>v < length key.
            (fst (fold (prim_update_step points inMST u) vs (key, parent)) ! v,
             snd (fold (prim_update_step points inMST u) vs (key, parent)) ! v)
            = (if v \<in> set vs \<and> \<not> inMST ! v
                    \<and> js_lt (distance (points ! u) (points ! v)) (key ! v)
               then (distance (points ! u) (points ! v), Some u)
               else (key ! v, parent ! v)))"
  using assms
proof (induction vs arbitrary: key parent)
  case Nil
  then show ?case by simp
next
  case (Cons w vs)
  obtain key1 parent1 where st: "prim_update_step points inMST u w (key, parent) = (key1, parent1)"
    by (cases "prim_update_step points inMST u w (key, parent)")
  have len: "length key1 = length key" "length parent1 = length key"
    using st Cons.prems(3) by (auto simp: prim_update_step_def Let_def split: if_splits)
  have w: "w < length key" "w \<notin> set vs" using Cons.prems by auto
  have other: "\<And>v. v \<noteq> w \<Longrightarrow> key1 ! v = key ! v \<and> parent1 ! v = parent ! v"
    using st by (auto simp: prim_update_step_def Let_def split: if_splits)
  have atw: "(key1 ! w, parent1 ! w)
       = (if \<not> inMST ! w \<and> js_lt (distance (points ! u) (points ! w)) (key ! w)
          then (distance (points ! u) (points ! w), Some u)
          else (key ! w, parent ! w))"
    using st w(1) Cons.prems(3) by (auto simp: prim_update_step_def Let_def split: if_splits)
  have pre: "distinct vs" "set vs \<subseteq> {..<length key1}" "length parent1 = length key1"
    using Cons.prems len by auto
  note ih = Cons.IH [OF pre]
  show ?case
  proof (intro conjI allI impI)
    show "length (fst (fold (prim_update_step points inMST u) (w # vs) (key, parent))) = length key"
      using ih len by (simp add: st)
    show "length (snd (fold (prim_update_step points inMST u) (w # vs) (key, parent))) = length key"
      using ih len by (simp add: st)
  next
    fix v assume v: "v < length key"
    then have v1: "v < length key1" using len by simp
    from ih v1 have e: "(fst (fold (prim_update_step points inMST u) vs (key1, parent1)) ! v,
             snd (fold (prim_update_step points inMST u) vs (key1, parent1)) ! v)
            = (if v \<in> set vs \<and> \<not> inMST ! v
                    \<and> js_lt (distance (points ! u) (points ! v)) (key1 ! v)
               then (distance (points ! u) (points ! v), Some u)
               else (key1 ! v, parent1 ! v))"
      by blast
    show "(fst (fold (prim_update_step points inMST u) (w # vs) (key, parent)) ! v,
             snd (fold (prim_update_step points inMST u) (w # vs) (key, parent)) ! v)
            = (if v \<in> set (w # vs) \<and> \<not> inMST ! v
                    \<and> js_lt (distance (points ! u) (points ! v)) (key ! v)
               then (distance (points ! u) (points ! v), Some u)
               else (key ! v, parent ! v))"
    proof (cases "v = w")
      case True
      show ?thesis using e w(2) atw unfolding True by (simp add: st)
    next
      case False
      then show ?thesis using e other [OF False] by (simp add: st)
    qed
  qed
qed

lemma prim_step:
  assumes inv: "prim_inv n order (inMST, key, parent)" and lt: "length order < n"
    and fin: "\<And>u v. u < n \<Longrightarrow> v < n \<Longrightarrow> js_lt (distance (points ! u) (points ! v)) PosInf"
  shows "\<exists>minKey u. prim_min n inMST key = (minKey, Some u) \<and>
           prim_inv n (order @ [u])
             (inMST[u := True],
              fold (prim_update_step points (inMST[u := True]) u) [0..<n] (key, parent))"
proof -
  have len: "length inMST = n" "length key = n" "length parent = n"
    and dist: "distinct order" and so: "set order = {i. i < n \<and> inMST ! i}"
    using inv unfolding prim_inv_def prod.case by blast+
  have mem: "\<And>i. i \<in> set order \<longleftrightarrow> i < n \<and> inMST ! i"
    using so by blast
  have empty: "order = [] \<Longrightarrow> key = (replicate n PosInf)[0 := Num 0] \<and> parent = replicate n None"
    using inv unfolding prim_inv_def prod.case by blast
  have ne: "order \<noteq> [] \<Longrightarrow> order ! 0 = 0 \<and> parent ! 0 = None \<and>
              (\<forall>v<n. v \<noteq> 0 \<longrightarrow> js_lt (key ! v) PosInf \<and> (\<exists>u \<in> set order. parent ! v = Some u)) \<and>
              (\<forall>j<length order. 0 < j \<longrightarrow>
                  (\<exists>i<j. parent ! (order ! j) = Some (order ! i)))"
    using inv unfolding prim_inv_def prod.case by blast
  have zero_in: "order \<noteq> [] \<Longrightarrow> 0 \<in> set order"
    using ne by (metis length_greater_0_conv nth_mem)
  have "\<exists>i \<in> set [0..<n]. \<exists>d. (if \<not> inMST ! i then Some (key ! i) else None) = Some d
           \<and> js_lt d (fst (PosInf, None :: nat option))"
  proof (cases "order = []")
    case True
    then have "key ! 0 = Num 0" using empty lt by simp
    moreover have "\<not> inMST ! 0" using True mem [of 0] lt by simp
    ultimately show ?thesis using lt by (intro bexI [of _ 0]) simp_all
  next
    case False
    have "card (set order) < card {..<n}" using dist lt by (simp add: distinct_card)
    then have "\<not> {..<n} \<subseteq> set order"
      by (meson List.finite_set card_mono not_le)
    then obtain v where v: "v < n" "v \<notin> set order" by auto
    then have "v \<noteq> 0" using zero_in [OF False] by metis
    then have "js_lt (key ! v) PosInf" using ne [OF False] v(1) by blast
    moreover have "\<not> inMST ! v" using v mem [of v] by simp
    ultimately show ?thesis using v(1) by (intro bexI [of _ v]) simp_all
  qed
  then have "snd (prim_min n inMST key) \<noteq> None"
    unfolding prim_min_def prim_min_step_min by (rule min_fold_found)
  then obtain minKey u where pm: "prim_min n inMST key = (minKey, Some u)"
    by (cases "prim_min n inMST key") auto
  from prim_min_Some [OF pm] have u: "u < n" "\<not> inMST ! u" "key ! u = minKey"
    "js_lt minKey PosInf" by auto
  have u_notin: "u \<notin> set order" using u mem [of u] by simp
  define inMST' where "inMST' = inMST[u := True]"
  define key' where "key' = fst (fold (prim_update_step points inMST' u) [0..<n] (key, parent))"
  define parent' where "parent' = snd (fold (prim_update_step points inMST' u) [0..<n] (key, parent))"
  have in': "\<And>i. i < n \<Longrightarrow> inMST' ! i \<longleftrightarrow> i = u \<or> inMST ! i"
    using len(1) u(1) by (auto simp: inMST'_def nth_list_update)
  have upd0: "length key' = length key \<and> length parent' = length key \<and>
     (\<forall>v<length key. (key' ! v, parent' ! v)
        = (if v \<in> set [0..<n] \<and> \<not> inMST' ! v
               \<and> js_lt (distance (points ! u) (points ! v)) (key ! v)
           then (distance (points ! u) (points ! v), Some u)
           else (key ! v, parent ! v)))"
    unfolding key'_def parent'_def
    by (rule prim_update_fold) (use len in auto)
  have len': "length key' = n" "length parent' = n" using upd0 len by simp_all
  have upd1: "(key' ! v, parent' ! v)
        = (if v \<in> set [0..<n] \<and> \<not> inMST' ! v
               \<and> js_lt (distance (points ! u) (points ! v)) (key ! v)
           then (distance (points ! u) (points ! v), Some u)
           else (key ! v, parent ! v))" if "v < n" for v
  proof -
    from upd0 have "\<forall>v<length key. (key' ! v, parent' ! v)
        = (if v \<in> set [0..<n] \<and> \<not> inMST' ! v
               \<and> js_lt (distance (points ! u) (points ! v)) (key ! v)
           then (distance (points ! u) (points ! v), Some u)
           else (key ! v, parent ! v))"
      by (elim conjE)
    then show ?thesis using that len(2) by (elim allE [of _ v]) simp
  qed
  have updT: "(key' ! v, parent' ! v) = (distance (points ! u) (points ! v), Some u)"
    if "v < n" "\<not> inMST' ! v \<and> js_lt (distance (points ! u) (points ! v)) (key ! v)" for v
    using upd1 [OF that(1)] that by simp
  have updF: "(key' ! v, parent' ! v) = (key ! v, parent ! v)"
    if "v < n" "\<not> (\<not> inMST' ! v \<and> js_lt (distance (points ! u) (points ! v)) (key ! v))" for v
    using upd1 [OF that(1)] that by simp
  have kept: "parent' ! v = parent ! v" if "v < n" "inMST' ! v" for v
    using updF [OF that(1)] that(2) by simp
  have u0: "order = [] \<Longrightarrow> u = 0"
  proof -
    assume "order = []"
    then have "key = (replicate n PosInf)[0 := Num 0]" using empty by simp
    then show "u = 0" using u by (cases "u = 0") auto
  qed
  have allnew: "\<And>v. v < n \<Longrightarrow> v \<noteq> 0 \<Longrightarrow>
      js_lt (key' ! v) PosInf \<and> (\<exists>w \<in> set (order @ [u]). parent' ! v = Some w)"
  proof -
    fix v assume v: "v < n" "v \<noteq> 0"
    show "js_lt (key' ! v) PosInf \<and> (\<exists>w \<in> set (order @ [u]). parent' ! v = Some w)"
    proof (cases "\<not> inMST' ! v \<and> js_lt (distance (points ! u) (points ! v)) (key ! v)")
      case True
      then have "(key' ! v, parent' ! v) = (distance (points ! u) (points ! v), Some u)"
        using updT [OF v(1)] by blast
      then show ?thesis using fin [OF u(1) v(1)] by simp
    next
      case False
      then have same: "(key' ! v, parent' ! v) = (key ! v, parent ! v)"
        using updF [OF v(1)] by blast
      show ?thesis
      proof (cases "order = []")
        case True
        then have "u = 0" by (rule u0)
        moreover have "\<not> inMST ! v" using True mem [of v] v(1) by simp
        ultimately have "\<not> inMST' ! v" using in' [OF v(1)] v(2) by simp
        moreover have "key ! v = PosInf" using True empty v by simp
        ultimately show ?thesis using False fin [OF u(1) v(1)] by simp
      next
        case ne': False
        from ne [OF ne'] v have "js_lt (key ! v) PosInf \<and> (\<exists>w \<in> set order. parent ! v = Some w)"
          by blast
        then show ?thesis using same by auto
      qed
    qed
  qed
  have chain: "\<And>j. j < length (order @ [u]) \<Longrightarrow> 0 < j \<Longrightarrow>
       \<exists>i<j. parent' ! ((order @ [u]) ! j) = Some ((order @ [u]) ! i)"
  proof -
    fix j assume j: "j < length (order @ [u])" "0 < j"
    then have one: "order \<noteq> []" by auto
    show "\<exists>i<j. parent' ! ((order @ [u]) ! j) = Some ((order @ [u]) ! i)"
    proof (cases "j < length order")
      case True
      then have "order ! j \<in> set order" by simp
      then have w: "order ! j < n" "inMST ! (order ! j)" using mem [of "order ! j"] by simp_all
      then have "parent' ! (order ! j) = parent ! (order ! j)"
        using kept in' by simp
      moreover obtain i where "i < j" "parent ! (order ! j) = Some (order ! i)"
        using ne [OF one] True j(2) by blast
      ultimately show ?thesis using True by (auto simp: nth_append intro!: exI [of _ i])
    next
      case False
      then have jl: "j = length order" using j(1) by simp
      have "u \<noteq> 0" using zero_in [OF one] u_notin by metis
      then obtain w where w: "w \<in> set order" "parent ! u = Some w"
        using ne [OF one] u(1) by blast
      then obtain i where i: "i < length order" "order ! i = w"
        by (auto simp: in_set_conv_nth)
      have "parent' ! u = parent ! u" using kept [OF u(1)] in' [OF u(1)] by simp
      then show ?thesis using jl i w by (auto simp: nth_append intro!: exI [of _ i])
    qed
  qed
  have first: "(order @ [u]) ! 0 = 0"
    using u0 ne by (cases "order = []") (auto simp: nth_append)
  have p0: "parent' ! 0 = None"
  proof (cases "order = []")
    case True
    then have "u = 0" by (rule u0)
    then have "parent' ! 0 = parent ! 0" using kept [of 0] in' [of 0] u(1) by simp
    then show ?thesis using True empty u(1) \<open>u = 0\<close> by simp
  next
    case False
    then have "0 \<in> set order" by (rule zero_in)
    then have "0 < n" "inMST ! 0" using mem [of 0] by simp_all
    then have "parent' ! 0 = parent ! 0" using kept [of 0] in' [of 0] by simp
    then show ?thesis using ne [OF False] by simp
  qed
  have set': "set (order @ [u]) = {i. i < n \<and> inMST' ! i}"
  proof (rule set_eqI)
    fix i show "i \<in> set (order @ [u]) \<longleftrightarrow> i \<in> {i. i < n \<and> inMST' ! i}"
      using mem [of i] u(1) in' [of i] by auto
  qed
  have l': "length inMST' = n" using len(1) by (simp add: inMST'_def)
  have d': "distinct (order @ [u])" using dist u_notin by simp
  have "prim_inv n (order @ [u]) (inMST', key', parent')"
    unfolding prim_inv_def prod.case
  proof (intro conjI impI)
    show "order @ [u] \<noteq> [] \<Longrightarrow> \<forall>v<n. v \<noteq> 0 \<longrightarrow> js_lt (key' ! v) PosInf \<and> (\<exists>u\<in>set (order @ [u]). parent' ! v = Some u)"
      using allnew by simp
    show "\<forall>j<length (order @ [u]). 0 < j \<longrightarrow> (\<exists>i<j. parent' ! ((order @ [u]) ! j) = Some ((order @ [u]) ! i))"
      using chain by simp
  qed (use l' len' d' set' first p0 in simp_all)
  then show ?thesis
    using pm by (simp add: inMST'_def key'_def parent'_def)
qed

lemma prim_loop_inv:
  assumes fin: "\<And>u v. u < n \<Longrightarrow> v < n \<Longrightarrow> js_lt (distance (points ! u) (points ! v)) PosInf"
  shows "prim_inv n order st \<Longrightarrow> c + length order = n \<Longrightarrow>
     \<exists>order'. length order' = n \<and> prim_inv n order' (prim_loop c points n st)"
proof (induction c arbitrary: order st)
  case 0
  then show ?case by (intro exI [of _ order]) simp
next
  case (Suc c)
  obtain inMST key parent where st: "st = (inMST, key, parent)" by (cases st)
  have lt: "length order < n" using Suc.prems(2) by simp
  from prim_step [OF Suc.prems(1) [unfolded st] lt fin]
  obtain minKey u where pm: "prim_min n inMST key = (minKey, Some u)"
    and inv': "prim_inv n (order @ [u])
             (inMST[u := True],
              fold (prim_update_step points (inMST[u := True]) u) [0..<n] (key, parent))"
    by auto
  have c: "c + length (order @ [u]) = n" using Suc.prems(2) by simp
  from Suc.IH [OF inv' c] obtain order' where
    o: "length order' = n" "prim_inv n order'
        (prim_loop c points n (inMST[u := True],
              fold (prim_update_step points (inMST[u := True]) u) [0..<n] (key, parent)))"
    by auto
  have "prim_loop (Suc c) points n st
      = prim_loop c points n (inMST[u := True],
              fold (prim_update_step points (inMST[u := True]) u) [0..<n] (key, parent))"
    by (simp add: st pm Let_def split: prod.splits)
  with o show ?case by (intro exI [of _ order']) simp
qed

lemma prim_inv_init:
  "prim_inv n [] (replicate n False, (replicate n PosInf)[0 := Num 0], replicate n None)"
  by (simp add: prim_inv_def)

lemma primMST_set:
  assumes "length parent = n"
  shows "set (concat (map (\<lambda>i. case parent ! i of None \<Rightarrow> [] | Some p \<Rightarrow> [(p, i)]) [1..<n]))
       = {(p, i). 1 \<le> i \<and> i < n \<and> parent ! i = Some p}"
  by (auto split: option.splits)

lemma primMST_spanning:
  assumes "0 < length points" "finite_distances points"
  shows "\<exists>order. spanning_order (length points) (primMST points) order"
    and "\<And>p i. (p, i) \<in> set (primMST points) \<Longrightarrow> p < length points \<and> i < length points \<and> p \<noteq> i"
proof -
  define n where "n = length points"
  have fin: "js_lt (distance (points ! u) (points ! v)) PosInf" if "u < n" "v < n" for u v
    using finite_distancesD [OF assms(2)] that by (simp add: n_def)
  from prim_loop_inv [OF fin prim_inv_init, of n n] obtain order where
    lo: "length order = n" and inv: "prim_inv n order (prim_loop n points n
           (replicate n False, (replicate n PosInf)[0 := Num 0], replicate n None))"
    by auto
  obtain inMST key parent where st: "prim_loop n points n
           (replicate n False, (replicate n PosInf)[0 := Num 0], replicate n None)
         = (inMST, key, parent)"
    by (cases "prim_loop n points n
           (replicate n False, (replicate n PosInf)[0 := Num 0], replicate n None)")
  have mst: "primMST points
     = concat (map (\<lambda>i. case parent ! i of None \<Rightarrow> [] | Some p \<Rightarrow> [(p, i)]) [1..<n])"
    using st by (simp add: primMST_def n_def Let_def)
  have ne: "order \<noteq> []" using lo assms(1) by (auto simp: n_def)
  have len: "length parent = n"
    using inv unfolding st prim_inv_def prod.case by (elim conjE)
  have dist: "distinct order"
    using inv unfolding st prim_inv_def prod.case by (elim conjE)
  have so: "set order = {i. i < n \<and> inMST ! i}"
    using inv unfolding st prim_inv_def prod.case by (elim conjE)
  have r0: "order \<noteq> [] \<longrightarrow>
           order ! 0 = 0 \<and> parent ! 0 = None \<and>
           (\<forall>v<n. v \<noteq> 0 \<longrightarrow> js_lt (key ! v) PosInf \<and> (\<exists>u \<in> set order. parent ! v = Some u)) \<and>
           (\<forall>j<length order. 0 < j \<longrightarrow>
               (\<exists>i<j. parent ! (order ! j) = Some (order ! i)))"
    using inv unfolding st prim_inv_def prod.case by (elim conjE)
  have rest: "order ! 0 = 0 \<and> parent ! 0 = None \<and>
           (\<forall>v<n. v \<noteq> 0 \<longrightarrow> js_lt (key ! v) PosInf \<and> (\<exists>u \<in> set order. parent ! v = Some u)) \<and>
           (\<forall>j<length order. 0 < j \<longrightarrow>
               (\<exists>i<j. parent ! (order ! j) = Some (order ! i)))"
    using r0 ne by (rule mp)
  have sub: "set order \<subseteq> {..<n}" unfolding so by (rule subsetI) simp
  have full: "set order = {..<n}"
    using distinct_full(2) [OF dist sub] lo by simp
  have edges: "set (primMST points) = {(p, i). 1 \<le> i \<and> i < n \<and> parent ! i = Some p}"
    unfolding mst by (rule primMST_set [OF len])
  have chain: "\<exists>i<j. (order ! i, order ! j) \<in> set (primMST points)" if j: "j < n" "0 < j" for j
  proof -
    from rest j lo obtain i where i: "i < j" "parent ! (order ! j) = Some (order ! i)"
      by (elim conjE) (erule allE [of _ j], auto)
    have "order ! j \<noteq> order ! 0"
      using dist j lo by (simp add: nth_eq_iff_index_eq)
    then have "1 \<le> order ! j" using rest by simp
    moreover have "order ! j \<in> set order" using j lo by simp
    then have "order ! j < n" unfolding full by simp
    ultimately have "(order ! i, order ! j) \<in> set (primMST points)"
      unfolding edges using i(2) by simp
    with i(1) show ?thesis by (intro exI [of _ i]) simp
  qed
  have "spanning_order n (primMST points) order"
    unfolding spanning_order_def using dist full rest chain by simp
  then show "\<exists>order. spanning_order (length points) (primMST points) order"
    unfolding n_def by (rule exI)
  fix p i assume "(p, i) \<in> set (primMST points)"
  then have pi: "1 \<le> i" "i < n" "parent ! i = Some p" unfolding edges by simp_all
  then have "i \<in> set order" unfolding full by simp
  then obtain j where j: "j < length order" "order ! j = i" by (auto simp: in_set_conv_nth)
  have "0 < j" using j pi(1) rest by (cases "j = 0") auto
  with rest j(1) obtain k where k: "k < j" "parent ! (order ! j) = Some (order ! k)"
    by (elim conjE) (erule allE [of _ j], auto)
  then have p: "p = order ! k" using pi(3) j(2) by simp
  have "order ! k \<in> set order" using k(1) j(1) by simp
  then have "p < n" unfolding p full by simp
  moreover have "p \<noteq> i"
    unfolding p j(2) [symmetric] using dist k(1) j(1) by (simp add: nth_eq_iff_index_eq)
  ultimately show "p < length points \<and> i < length points \<and> p \<noteq> i"
    using pi(2) unfolding n_def by simp
qed

section \<open>The edges of Prim's algorithm join vertices\<close>

lemma prim_update_step_bounds:
  assumes "prim_bounds n (a, key, parent)" "u < n"
  shows "prim_bounds n (b, prim_update_step points c u v (key, parent))"
proof -
  have "(case parent[v := Some u] ! i of None \<Rightarrow> True | Some w \<Rightarrow> w < n)"
    if "i < n" for i
    using assms that
    by (cases "i = v") (auto simp: prim_bounds_def list_all_length)
  then show ?thesis
    using assms by (auto simp: prim_bounds_def prim_update_step_def Let_def list_all_length)
qed

lemma prim_update_fold_bounds:
  assumes "prim_bounds n (a, st)" "u < n"
  shows "prim_bounds n (b, fold (prim_update_step points c u) vs st)"
  using assms(1)
proof (induction vs arbitrary: st)
  case Nil
  then show ?case by (cases st) (simp add: prim_bounds_def)
next
  case (Cons v vs)
  obtain key parent where st: "st = (key, parent)" by (cases st)
  have "prim_bounds n (a, prim_update_step points c u v (key, parent))"
    using Cons.prems assms(2) unfolding st by (rule prim_update_step_bounds)
  from Cons.IH [OF this] show ?case by (simp add: st)
qed

lemma prim_loop_bounds:
  "prim_bounds n st \<Longrightarrow> prim_bounds n (prim_loop c points n st)"
proof (induction c arbitrary: st)
  case 0
  then show ?case by simp
next
  case (Suc c)
  obtain inMST key parent where st: "st = (inMST, key, parent)" by (cases st)
  obtain minKey uo where pm: "prim_min n inMST key = (minKey, uo)"
    by (cases "prim_min n inMST key")
  show ?case
  proof (cases uo)
    case None
    then show ?thesis using Suc.prems by (simp add: st pm)
  next
    case (Some u)
    from prim_min_Some [OF pm [unfolded Some]] have u: "u < n" by simp
    obtain key' parent' where f:
      "fold (prim_update_step points (inMST[u := True]) u) [0..<n] (key, parent) = (key', parent')"
      by (cases "fold (prim_update_step points (inMST[u := True]) u) [0..<n] (key, parent)")
    have "prim_bounds n (inMST[u := True],
        fold (prim_update_step points (inMST[u := True]) u) [0..<n] (key, parent))"
      using Suc.prems u unfolding st by (rule prim_update_fold_bounds)
    then have "prim_bounds n (inMST[u := True], key', parent')" by (simp only: f)
    from Suc.IH [OF this] show ?thesis by (simp add: st pm Some f)
  qed
qed

lemma primMST_bounds: "\<forall>e \<in> set (primMST points). fst e < length points \<and> snd e < length points"
proof -
  define n where "n = length points"
  obtain inMST key parent where st: "prim_loop n points n
           (replicate n False, (replicate n PosInf)[0 := Num 0], replicate n None)
         = (inMST, key, parent)"
    by (cases "prim_loop n points n
           (replicate n False, (replicate n PosInf)[0 := Num 0], replicate n None)")
  have "prim_bounds n (replicate n False, (replicate n PosInf)[0 := Num 0], replicate n None)"
    by (simp add: prim_bounds_def list_all_length)
  then have "prim_bounds n (prim_loop n points n
           (replicate n False, (replicate n PosInf)[0 := Num 0], replicate n None))"
    by (rule prim_loop_bounds)
  then have b: "length parent = n" "\<And>i u. i < n \<Longrightarrow> parent ! i = Some u \<Longrightarrow> u < n"
    unfolding st by (auto simp: prim_bounds_def list_all_length split: option.splits)
  have mst: "primMST points
     = concat (map (\<lambda>i. case parent ! i of None \<Rightarrow> [] | Some p \<Rightarrow> [(p, i)]) [1..<n])"
    using st by (simp add: primMST_def n_def Let_def)
  have "set (primMST points) = {(p, i). 1 \<le> i \<and> i < n \<and> parent ! i = Some p}"
    unfolding mst by (rule primMST_set [OF b(1)])
  then show ?thesis using b(2) by (auto simp: n_def)
qed

section \<open>Degrees of the spanning tree\<close>

lemma degree_step_sum:
  assumes "u < length ds" "v < length ds"
  shows "sum_list (degree_step (u, v) ds) = sum_list ds + 2"
    and "length (degree_step (u, v) ds) = length ds"
proof -
  have a: "sum_list (ds[u := ds ! u + 1]) = sum_list ds + 1"
    using assms(1) by (simp add: sum_list_update)
  have "sum_list ((ds[u := ds ! u + 1])[v := ds[u := ds ! u + 1] ! v + 1])
      = sum_list (ds[u := ds ! u + 1]) + 1"
    using assms(2) by (simp add: sum_list_update)
  with a show "sum_list (degree_step (u, v) ds) = sum_list ds + 2"
    by (simp add: degree_step_def Let_def)
  show "length (degree_step (u, v) ds) = length ds"
    by (simp add: degree_step_def Let_def)
qed

lemma degrees_fold_sum:
  "\<forall>e \<in> set es. fst e < length ds \<and> snd e < length ds \<Longrightarrow>
     sum_list (fold degree_step es ds) = sum_list ds + 2 * length es
     \<and> length (fold degree_step es ds) = length ds"
proof (induction es arbitrary: ds)
  case Nil
  then show ?case by simp
next
  case (Cons e es)
  obtain u v where e: "e = (u, v)" by (cases e)
  have uv: "u < length ds" "v < length ds" using Cons.prems e by auto
  note s = degree_step_sum [OF uv]
  have "\<forall>e \<in> set es. fst e < length (degree_step (u, v) ds) \<and> snd e < length (degree_step (u, v) ds)"
    using Cons.prems s(2) by simp
  from Cons.IH [OF this] s show ?case by (simp add: e)
qed

lemma odd_count_parity:
  "even (length (filter (\<lambda>d. d mod 2 = 1) (ds :: nat list))) \<longleftrightarrow> even (sum_list ds)"
proof (induction ds)
  case Nil
  then show ?case by simp
next
  case (Cons a ds)
  show ?case
  proof (cases "even a")
    case True
    then have "a mod 2 \<noteq> 1" by presburger
    then show ?thesis using Cons True by simp
  next
    case False
    then have "a mod 2 = 1" by presburger
    then show ?thesis using Cons False by simp
  qed
qed

lemma odd_vertices_length:
  "length (odd_vertices n mst)
     = length (filter (\<lambda>d. d mod 2 = 1) (map ((!) (mst_degrees n mst)) [0..<n]))"
  by (simp add: odd_vertices_def Let_def filter_map comp_def)

lemma mst_degrees_sum:
  assumes "\<forall>e \<in> set mst. fst e < n \<and> snd e < n"
  shows "sum_list (mst_degrees n mst) = 2 * length mst" and "length (mst_degrees n mst) = n"
  using degrees_fold_sum [of mst "replicate n 0"] assms
  by (simp_all add: mst_degrees_def)

section \<open>Parity of the odd-degree vertices\<close>

text \<open>
  C9. For every input point list, the list of the vertices of odd degree in the spanning
  tree of Prim's algorithm has an even number of elements.
\<close>

theorem odd_vertices_even:
  "even (length (odd_vertices (length points) (primMST points)))"
proof -
  note b = primMST_bounds [of points]
  have "map ((!) (mst_degrees (length points) (primMST points))) [0..<length points]
      = mst_degrees (length points) (primMST points)"
    using mst_degrees_sum(2) [OF b] by (metis map_nth)
  moreover have "even (sum_list (mst_degrees (length points) (primMST points)))"
    using mst_degrees_sum(1) [OF b] by simp
  then have "even (length (filter (\<lambda>d. d mod 2 = 1)
      (mst_degrees (length points) (primMST points))))"
    by (simp only: odd_count_parity)
  ultimately show ?thesis by (simp only: odd_vertices_length)
qed

end
